theory Spec2Isabelle
  imports Main "HOL-Library.Word"
begin

section \<open>The INI cache of the ReactOS setup library (inicache.c)\<close>

text \<open>
  The development embeds \<^verbatim>\<open>base/setup/lib/utils/inicache.c\<close>: the scanner that walks a
  null-terminated character buffer, the store of sections and keys (doubly linked lists
  on the process heap), the loader that drives the scanner into the store, and the
  serializer.

  Conventions of the embedding.
  \<^item> A \<^verbatim>\<open>PCHAR\<close> into the file buffer is the list of the bytes from the pointer to the
    end of the buffer's allocation; the terminating zero byte is one of them. The empty
    list is the pointer one past the allocation: reading through it is the fault
    \<open>ReadPastEnd\<close>. \<^verbatim>\<open>Ptr++\<close> is \<open>tl\<close>. The null pointer is \<open>None\<close>.
  \<^item> Narrow and wide characters are both HOL's \<open>char\<close>; the conversions done by the C
    library (\<^verbatim>\<open>%S\<close> in \<^verbatim>\<open>_snwprintf\<close> and \<^verbatim>\<open>sprintf\<close>) are the identity on character
    codes, as they are on 7-bit text. \<^verbatim>\<open>isspace\<close> and \<^verbatim>\<open>towlower\<close> are those of the C locale.
  \<^item> Keys, sections and cache headers live in three typed heaps, lists indexed by
    address; an allocation appends. Names and values are stored inside their key or
    section (each is a buffer owned by exactly one of them).
  \<^item> \<^verbatim>\<open>RtlAllocateHeap\<close> may fail: the heap carries the outcomes of the coming
    allocations; once they are used up every allocation succeeds.
  \<^item> Every function returns \<open>fault + result\<close>: \<open>Inl\<close> is behaviour the C standard leaves
    undefined (a read outside the buffer, a null or dangling pointer) or a loop that
    never ends.
\<close>

subsection \<open>Characters and C strings\<close>

definition NUL :: char where "NUL = CHR 0x00"
definition CR :: char where "CR = CHR 0x0D"
definition LF :: char where "LF = CHR 0x0A"
definition CRLF :: string where "CRLF = [CR, LF]"

definition isspace :: "char \<Rightarrow> bool" where
  "isspace c \<longleftrightarrow> c = CHR 0x20 \<or> c = CHR 0x09 \<or> c = CHR 0x0A \<or> c = CHR 0x0B
                 \<or> c = CHR 0x0C \<or> c = CHR 0x0D"

definition towlower :: "char \<Rightarrow> char" where
  "towlower c =
     (case map_of (zip ''ABCDEFGHIJKLMNOPQRSTUVWXYZ'' ''abcdefghijklmnopqrstuvwxyz'') c of
        None \<Rightarrow> c | Some l \<Rightarrow> l)"

text \<open>The characters of a C string: those before its first zero.\<close>

definition c_str :: "string \<Rightarrow> string" where
  "c_str s = takeWhile (\<lambda>c. c \<noteq> NUL) s"

definition wcslen :: "string \<Rightarrow> nat" where
  "wcslen s = length (c_str s)"

text \<open>
  \<^verbatim>\<open>wcsncpy(Dst, Src, n); Dst[n] = 0\<close> and \<^verbatim>\<open>_snwprintf(Dst, n, L"%.*S", n, Src); Dst[n] = 0\<close>,
  read back as a C string: at most \<open>n\<close> characters of the source, up to its first zero.
\<close>

definition wcsncpy :: "string \<Rightarrow> nat \<Rightarrow> string" where
  "wcsncpy Src n = c_str (take n Src)"

definition snwprintf_S :: "string \<Rightarrow> nat \<Rightarrow> string" where
  "snwprintf_S Src n = c_str (take n Src)"

text \<open>
  \<^verbatim>\<open>_wcsicmp\<close>: the callers only test the result against 0, so the sign of a non-zero
  result is not modelled.
\<close>

definition wcsicmp :: "string \<Rightarrow> string \<Rightarrow> int" where
  "wcsicmp s1 s2 = (if map towlower (c_str s1) = map towlower (c_str s2) then 0 else 1)"

subsection \<open>Faults and status codes\<close>

datatype fault = ReadPastEnd | NullDereference | InvalidPointer | BufferOverrun | Diverges

definition bindF :: "fault + 'a \<Rightarrow> ('a \<Rightarrow> fault + 'b) \<Rightarrow> fault + 'b" where
  "bindF m f = (case m of Inl e \<Rightarrow> Inl e | Inr x \<Rightarrow> f x)"

lemma bindF_cong [fundef_cong]:
  "m = m' \<Longrightarrow> (\<And>x. m' = Inr x \<Longrightarrow> f x = f' x) \<Longrightarrow> bindF m f = bindF m' f'"
  by (cases m') (simp_all add: bindF_def)

type_synonym NTSTATUS = "32 word"

text \<open>The status codes and \<^verbatim>\<open>NT_SUCCESS\<close> of the NT headers.\<close>

definition STATUS_SUCCESS :: NTSTATUS where "STATUS_SUCCESS = 0x00000000"
definition STATUS_INVALID_PARAMETER :: NTSTATUS where "STATUS_INVALID_PARAMETER = 0xC000000D"
definition STATUS_INSUFFICIENT_RESOURCES :: NTSTATUS where
  "STATUS_INSUFFICIENT_RESOURCES = 0xC000009A"

definition NT_SUCCESS :: "NTSTATUS \<Rightarrow> bool" where
  "NT_SUCCESS Status \<longleftrightarrow> 0 \<le> sint Status"

subsection \<open>The text scanner\<close>

definition deref :: "string \<Rightarrow> fault + char" where
  "deref Ptr = (case Ptr of [] \<Rightarrow> Inl ReadPastEnd | c # _ \<Rightarrow> Inr c)"

text \<open>
  \<^verbatim>\<open>while (P(*Ptr)) { Ptr++; Size++; }\<close>: the number of steps and the pointer where the
  loop stops.
\<close>

fun scan :: "(char \<Rightarrow> bool) \<Rightarrow> string \<Rightarrow> fault + (nat \<times> string)" where
  "scan P [] = Inl ReadPastEnd"
| "scan P (c # cs) =
     (if P c then (case scan P cs of Inl e \<Rightarrow> Inl e | Inr (Size, Ptr) \<Rightarrow> Inr (Suc Size, Ptr))
      else Inr (0, c # cs))"

definition IniCacheSkipWhitespace :: "string \<Rightarrow> fault + string option" where
  "IniCacheSkipWhitespace Ptr =
     bindF (scan (\<lambda>c. c \<noteq> NUL \<and> isspace c) Ptr) (\<lambda>(_, Ptr1).
     bindF (deref Ptr1) (\<lambda>c.
     Inr (if c = NUL then None else Some Ptr1)))"

lemma scan_length:
  "scan P s = Inr (n, r) \<Longrightarrow> r \<noteq> [] \<and> n + length r = length s"
proof (induction s arbitrary: n r)
  case Nil
  then show ?case by simp
next
  case (Cons c cs)
  then show ?case by (auto split: if_splits sum.splits)
qed

function IniCacheSkipToNextSection :: "string \<Rightarrow> fault + string option" where
  "IniCacheSkipToNextSection Ptr =
     (case deref Ptr of
        Inl e \<Rightarrow> Inl e
      | Inr c \<Rightarrow>
          if c \<noteq> NUL \<and> c \<noteq> CHR ''['' then
            (case scan (\<lambda>c. c \<noteq> NUL \<and> c \<noteq> LF) Ptr of
               Inl e \<Rightarrow> Inl e
             | Inr (_, Ptr1) \<Rightarrow> IniCacheSkipToNextSection (tl Ptr1))
          else Inr (if c = NUL then None else Some Ptr))"
  by pat_completeness auto
termination
proof (relation "measure length")
  show "wf (measure length)" by simp
next
  fix Ptr :: string and c x2 n Ptr1
  assume "scan (\<lambda>c. c \<noteq> NUL \<and> c \<noteq> LF) Ptr = Inr x2" and "(n, Ptr1) = x2"
  then have "scan (\<lambda>c. c \<noteq> NUL \<and> c \<noteq> LF) Ptr = Inr (n, Ptr1)" by simp
  from scan_length [OF this] have "Ptr1 \<noteq> []" and "length Ptr1 \<le> length Ptr" by auto
  then show "(tl Ptr1, Ptr) \<in> measure length" by (cases Ptr1) auto
qed

declare IniCacheSkipToNextSection.simps [simp del]

text \<open>Returns the advanced pointer, \<^verbatim>\<open>*NamePtr\<close> and \<^verbatim>\<open>*NameSize\<close>.\<close>

definition IniCacheGetSectionName :: "string \<Rightarrow> fault + (string \<times> string option \<times> nat)" where
  "IniCacheGetSectionName Ptr =
     bindF (scan (\<lambda>c. c \<noteq> NUL \<and> isspace c) Ptr) (\<lambda>(_, Ptr1).
     bindF (scan (\<lambda>c. c \<noteq> NUL \<and> c \<noteq> CHR '']'') Ptr1) (\<lambda>(Size, Ptr2).
     bindF (scan (\<lambda>c. c \<noteq> NUL \<and> c \<noteq> LF) (tl Ptr2)) (\<lambda>(_, Ptr3).
     Inr (tl Ptr3, Some Ptr1, Size))))"

text \<open>
  The loop of \<^verbatim>\<open>IniCacheGetKeyName\<close>, entered with a non-null \<^verbatim>\<open>Ptr\<close>. \<open>NamePtr\<close> and
  \<open>NameSize\<close> are the current contents of the two out-parameters. After \<^verbatim>\<open>continue\<close>
  the loop condition is false (\<^verbatim>\<open>*Ptr == 0\<close>), so the function returns there.
\<close>

function IniCacheGetKeyName_loop ::
  "string \<Rightarrow> string option \<Rightarrow> nat \<Rightarrow> fault + (string \<times> string option \<times> nat)" where
  "IniCacheGetKeyName_loop Ptr NamePtr NameSize =
     (case deref Ptr of
        Inl e \<Rightarrow> Inl e
      | Inr c \<Rightarrow>
          if c = NUL then Inr (Ptr, NamePtr, NameSize)
          else
            (case scan (\<lambda>c. isspace c \<or> c = LF \<or> c = CR) Ptr of
               Inl e \<Rightarrow> Inl e
             | Inr (_, Ptr1) \<Rightarrow>
                 (case deref Ptr1 of
                    Inl e \<Rightarrow> Inl e
                  | Inr c1 \<Rightarrow>
                      if c1 = NUL then Inr (Ptr1, None, 0)
                      else
                        (case scan (\<lambda>c. c \<noteq> NUL \<and> \<not> isspace c \<and> c \<noteq> CHR ''='' \<and> c \<noteq> CHR '';'') Ptr1 of
                           Inl e \<Rightarrow> Inl e
                         | Inr (Size, Ptr2) \<Rightarrow>
                             (case deref Ptr2 of
                                Inl e \<Rightarrow> Inl e
                              | Inr c2 \<Rightarrow>
                                  if c2 = CHR '';'' then
                                    (case scan (\<lambda>c. c \<noteq> NUL \<and> c \<noteq> CR \<and> c \<noteq> LF) Ptr2 of
                                       Inl e \<Rightarrow> Inl e
                                     | Inr (_, Ptr3) \<Rightarrow> IniCacheGetKeyName_loop Ptr3 (Some Ptr1) 0)
                                  else Inr (Ptr2, Some Ptr1, Size))))))"
  by pat_completeness auto
termination
proof (relation "measure (\<lambda>(Ptr, _, _). length Ptr)")
  show "wf (measure (\<lambda>(Ptr, _, _). length Ptr))" by simp
next
  fix Ptr :: string and NamePtr :: "string option" and NameSize :: nat
    and c x2 n1 Ptr1 c1 x2a Size Ptr2 c2 x2b n3 Ptr3
  assume a1: "scan (\<lambda>c. isspace c \<or> c = LF \<or> c = CR) Ptr = Inr x2" "(n1, Ptr1) = x2"
    and a2: "scan (\<lambda>c. c \<noteq> NUL \<and> \<not> isspace c \<and> c \<noteq> CHR ''='' \<and> c \<noteq> CHR '';'') Ptr1 = Inr x2a"
      "(Size, Ptr2) = x2a"
    and a3: "deref Ptr2 = Inr c2" "c2 = CHR '';''"
    and a4: "scan (\<lambda>c. c \<noteq> NUL \<and> c \<noteq> CR \<and> c \<noteq> LF) Ptr2 = Inr x2b" "(n3, Ptr3) = x2b"
  from a1 have "length Ptr1 \<le> length Ptr" by (auto dest: scan_length)
  moreover from a2 have "length Ptr2 \<le> length Ptr1" by (auto dest: scan_length)
  moreover from a3 a4 have "length Ptr3 < length Ptr2"
    by (cases Ptr2) (auto simp: deref_def NUL_def CR_def LF_def dest: scan_length split: sum.splits)
  ultimately show "((Ptr3, Some Ptr1, 0), (Ptr, NamePtr, NameSize)) \<in> measure (\<lambda>(Ptr, _, _). length Ptr)"
    by simp
qed

declare IniCacheGetKeyName_loop.simps [simp del]

definition IniCacheGetKeyName :: "string \<Rightarrow> fault + (string \<times> string option \<times> nat)" where
  "IniCacheGetKeyName Ptr = IniCacheGetKeyName_loop Ptr None 0"

text \<open>The tail of \<^verbatim>\<open>IniCacheGetKeyValue\<close>: skip to the next line, store the size, return.\<close>

definition skip_to_next_line ::
  "string \<Rightarrow> string option \<Rightarrow> nat \<Rightarrow> fault + (string option \<times> string option \<times> nat)" where
  "skip_to_next_line Ptr DataPtr Size =
     bindF (deref Ptr) (\<lambda>c.
     let Ptr1 = (if c = CR then tl Ptr else Ptr) in
     bindF (deref Ptr1) (\<lambda>c1.
     let Ptr2 = (if c1 = LF then tl Ptr1 else Ptr1) in
     Inr (Some Ptr2, DataPtr, Size)))"

text \<open>Returns the advanced pointer (null when \<^verbatim>\<open>=\<close> is missing), \<^verbatim>\<open>*DataPtr\<close>, \<^verbatim>\<open>*DataSize\<close>.\<close>

definition IniCacheGetKeyValue ::
  "string \<Rightarrow> bool \<Rightarrow> fault + (string option \<times> string option \<times> nat)" where
  "IniCacheGetKeyValue Ptr String =
     bindF (scan (\<lambda>c. c \<noteq> NUL \<and> isspace c) Ptr) (\<lambda>(_, Ptr1).
     bindF (deref Ptr1) (\<lambda>c.
     if c \<noteq> CHR ''='' then Inr (None, None, 0)
     else
       bindF (scan (\<lambda>c. c \<noteq> NUL \<and> isspace c) (tl Ptr1)) (\<lambda>(_, Ptr2).
       bindF (deref Ptr2) (\<lambda>c2.
       if c2 = CHR 0x22 \<and> String then
         bindF (scan (\<lambda>c. c \<noteq> CHR 0x22) (tl Ptr2)) (\<lambda>(Size, Ptr3).
         bindF (scan (\<lambda>c. c \<noteq> NUL \<and> c \<noteq> CR \<and> c \<noteq> LF) (tl Ptr3)) (\<lambda>(_, Ptr4).
         skip_to_next_line Ptr4 (Some (tl Ptr2)) Size))
       else
         bindF (scan (\<lambda>c. c \<noteq> NUL \<and> c \<noteq> CR \<and> c \<noteq> CHR '';'') Ptr2) (\<lambda>(Size, Ptr3).
         skip_to_next_line Ptr3 (Some Ptr2) Size)))))"

subsection \<open>The entry store\<close>

type_synonym addr = nat

record INI_KEYWORD =
  Key_Name :: string
  Key_Data :: string
  Key_Next :: "addr option"
  Key_Prev :: "addr option"

record INI_SECTION =
  Section_Name :: string
  FirstKey :: "addr option"
  LastKey :: "addr option"
  Section_Next :: "addr option"
  Section_Prev :: "addr option"

record INICACHE =
  FirstSection :: "addr option"
  LastSection :: "addr option"

datatype INSERTION_TYPE = INSERT_FIRST | INSERT_BEFORE | INSERT_AFTER | INSERT_LAST

record heap =
  Keys :: "INI_KEYWORD list"
  Sections :: "INI_SECTION list"
  Caches :: "INICACHE list"
  Allocs :: "bool list"

definition RtlAllocateHeap :: "heap \<Rightarrow> bool \<times> heap" where
  "RtlAllocateHeap h =
     (case Allocs h of [] \<Rightarrow> (True, h) | ok # rest \<Rightarrow> (ok, h\<lparr>Allocs := rest\<rparr>))"

definition get_key :: "heap \<Rightarrow> addr option \<Rightarrow> fault + INI_KEYWORD" where
  "get_key h p =
     (case p of
        None \<Rightarrow> Inl NullDereference
      | Some a \<Rightarrow> if a < length (Keys h) then Inr (Keys h ! a) else Inl InvalidPointer)"

definition set_key :: "heap \<Rightarrow> addr option \<Rightarrow> (INI_KEYWORD \<Rightarrow> INI_KEYWORD) \<Rightarrow> fault + heap" where
  "set_key h p f =
     (case p of
        None \<Rightarrow> Inl NullDereference
      | Some a \<Rightarrow>
          if a < length (Keys h) then Inr (h\<lparr>Keys := (Keys h)[a := f (Keys h ! a)]\<rparr>)
          else Inl InvalidPointer)"

definition get_section :: "heap \<Rightarrow> addr option \<Rightarrow> fault + INI_SECTION" where
  "get_section h p =
     (case p of
        None \<Rightarrow> Inl NullDereference
      | Some a \<Rightarrow> if a < length (Sections h) then Inr (Sections h ! a) else Inl InvalidPointer)"

definition set_section :: "heap \<Rightarrow> addr option \<Rightarrow> (INI_SECTION \<Rightarrow> INI_SECTION) \<Rightarrow> fault + heap" where
  "set_section h p f =
     (case p of
        None \<Rightarrow> Inl NullDereference
      | Some a \<Rightarrow>
          if a < length (Sections h) then Inr (h\<lparr>Sections := (Sections h)[a := f (Sections h ! a)]\<rparr>)
          else Inl InvalidPointer)"

definition get_cache :: "heap \<Rightarrow> addr option \<Rightarrow> fault + INICACHE" where
  "get_cache h p =
     (case p of
        None \<Rightarrow> Inl NullDereference
      | Some a \<Rightarrow> if a < length (Caches h) then Inr (Caches h ! a) else Inl InvalidPointer)"

definition set_cache :: "heap \<Rightarrow> addr option \<Rightarrow> (INICACHE \<Rightarrow> INICACHE) \<Rightarrow> fault + heap" where
  "set_cache h p f =
     (case p of
        None \<Rightarrow> Inl NullDereference
      | Some a \<Rightarrow>
          if a < length (Caches h) then Inr (h\<lparr>Caches := (Caches h)[a := f (Caches h ! a)]\<rparr>)
          else Inl InvalidPointer)"

text \<open>
  The \<^verbatim>\<open>for\<close> loops of \<^verbatim>\<open>IniCacheFindSection\<close> and \<^verbatim>\<open>IniCacheFindKey\<close> follow the
  \<^verbatim>\<open>Next\<close> links. A walk through more nodes than the heap holds has entered a cycle and
  never ends; the fuel, one more than the size of the heap, turns that into \<open>Diverges\<close>.
\<close>

fun IniCacheFindSection_loop :: "nat \<Rightarrow> heap \<Rightarrow> addr option \<Rightarrow> string \<Rightarrow> fault + addr option" where
  "IniCacheFindSection_loop fuel h None Name = Inr None"
| "IniCacheFindSection_loop 0 h (Some a) Name = Inl Diverges"
| "IniCacheFindSection_loop (Suc fuel) h (Some a) Name =
     (case get_section h (Some a) of
        Inl e \<Rightarrow> Inl e
      | Inr S \<Rightarrow>
          if wcsicmp (Section_Name S) Name = 0 then Inr (Some a)
          else IniCacheFindSection_loop fuel h (Section_Next S) Name)"

definition IniCacheFindSection :: "heap \<Rightarrow> addr option \<Rightarrow> string \<Rightarrow> fault + addr option" where
  "IniCacheFindSection h Cache Name =
     bindF (get_cache h Cache) (\<lambda>C.
     IniCacheFindSection_loop (Suc (length (Sections h))) h (FirstSection C) Name)"

fun IniCacheFindKey_loop :: "nat \<Rightarrow> heap \<Rightarrow> addr option \<Rightarrow> string \<Rightarrow> fault + addr option" where
  "IniCacheFindKey_loop fuel h None Name = Inr None"
| "IniCacheFindKey_loop 0 h (Some a) Name = Inl Diverges"
| "IniCacheFindKey_loop (Suc fuel) h (Some a) Name =
     (case get_key h (Some a) of
        Inl e \<Rightarrow> Inl e
      | Inr K \<Rightarrow>
          if wcsicmp (Key_Name K) Name = 0 then Inr (Some a)
          else IniCacheFindKey_loop fuel h (Key_Next K) Name)"

definition IniCacheFindKey :: "heap \<Rightarrow> addr option \<Rightarrow> string \<Rightarrow> fault + addr option" where
  "IniCacheFindKey h Section Name =
     bindF (get_section h Section) (\<lambda>S.
     IniCacheFindKey_loop (Suc (length (Keys h))) h (FirstKey S) Name)"

text \<open>
  The last part of \<^verbatim>\<open>IniCacheAddKeyAorW\<close>: link the new key \<open>Key\<close> into the section.
  The assignments are done in the order of the source.
\<close>

definition insert_key_into_section ::
  "heap \<Rightarrow> addr option \<Rightarrow> addr option \<Rightarrow> INSERTION_TYPE \<Rightarrow> addr \<Rightarrow> fault + heap" where
  "insert_key_into_section h Section AnchorKey InsertionType Key =
     bindF (get_section h Section) (\<lambda>S.
     if FirstKey S = None then
       set_section h Section (\<lambda>S. S\<lparr>FirstKey := Some Key, LastKey := Some Key\<rparr>)
     else if InsertionType = INSERT_FIRST \<or>
             (InsertionType = INSERT_BEFORE \<and> (AnchorKey = None \<or> AnchorKey = FirstKey S)) then
       bindF (set_key h (FirstKey S) (\<lambda>K. K\<lparr>Key_Prev := Some Key\<rparr>)) (\<lambda>h.
       bindF (set_key h (Some Key) (\<lambda>K. K\<lparr>Key_Next := FirstKey S\<rparr>)) (\<lambda>h.
       set_section h Section (\<lambda>S. S\<lparr>FirstKey := Some Key\<rparr>)))
     else if InsertionType = INSERT_BEFORE \<and> AnchorKey \<noteq> None then
       bindF (set_key h (Some Key) (\<lambda>K. K\<lparr>Key_Next := AnchorKey\<rparr>)) (\<lambda>h.
       bindF (get_key h AnchorKey) (\<lambda>A.
       bindF (set_key h (Some Key) (\<lambda>K. K\<lparr>Key_Prev := Key_Prev A\<rparr>)) (\<lambda>h.
       bindF (get_key h AnchorKey) (\<lambda>A.
       bindF (set_key h (Key_Prev A) (\<lambda>K. K\<lparr>Key_Next := Some Key\<rparr>)) (\<lambda>h.
       set_key h AnchorKey (\<lambda>K. K\<lparr>Key_Prev := Some Key\<rparr>))))))
     else if InsertionType = INSERT_LAST \<or>
             (InsertionType = INSERT_AFTER \<and> (AnchorKey = None \<or> AnchorKey = LastKey S)) then
       bindF (set_key h (LastKey S) (\<lambda>K. K\<lparr>Key_Next := Some Key\<rparr>)) (\<lambda>h.
       bindF (set_key h (Some Key) (\<lambda>K. K\<lparr>Key_Prev := LastKey S\<rparr>)) (\<lambda>h.
       set_section h Section (\<lambda>S. S\<lparr>LastKey := Some Key\<rparr>)))
     else if InsertionType = INSERT_AFTER \<and> AnchorKey \<noteq> None then
       bindF (get_key h AnchorKey) (\<lambda>A.
       bindF (set_key h (Some Key) (\<lambda>K. K\<lparr>Key_Next := Key_Next A\<rparr>)) (\<lambda>h.
       bindF (set_key h (Some Key) (\<lambda>K. K\<lparr>Key_Prev := AnchorKey\<rparr>)) (\<lambda>h.
       bindF (get_key h AnchorKey) (\<lambda>A.
       bindF (set_key h (Key_Next A) (\<lambda>K. K\<lparr>Key_Prev := Some Key\<rparr>)) (\<lambda>h.
       set_key h AnchorKey (\<lambda>K. K\<lparr>Key_Next := Some Key\<rparr>))))))
     else Inr h)"

text \<open>
  \<^verbatim>\<open>IniCacheAddKeyAorW\<close>. \<open>Name\<close> and \<open>Data\<close> are pointers to characters (null is
  \<open>None\<close>). The result is the returned key pointer and the heap. The key structure is
  allocated before its value buffer and freed again when that allocation fails: the
  model appends the key once both allocations have succeeded.
\<close>

definition IniCacheAddKeyAorW ::
  "heap \<Rightarrow> addr option \<Rightarrow> addr option \<Rightarrow> INSERTION_TYPE \<Rightarrow> string option \<Rightarrow> nat \<Rightarrow>
     string option \<Rightarrow> nat \<Rightarrow> bool \<Rightarrow> fault + (addr option \<times> heap)" where
  "IniCacheAddKeyAorW h Section AnchorKey InsertionType Name NameLength Data DataLength IsUnicode =
     (case (Name, Data) of
        (Some Name', Some Data') \<Rightarrow>
          if Section = None \<or> NameLength = 0 \<or> DataLength = 0 then Inr (None, h)
          else
            (case RtlAllocateHeap h of
               (False, h1) \<Rightarrow> Inr (None, h1)
             | (True, h1) \<Rightarrow>
                 let NameU = (if IsUnicode then wcsncpy Name' NameLength
                              else snwprintf_S Name' NameLength) in
                 bindF (IniCacheFindKey h1 Section NameU) (\<lambda>Key.
                 case Key of
                   Some K \<Rightarrow>
                     (case RtlAllocateHeap h1 of
                        (False, h2) \<Rightarrow> Inr (None, h2)
                      | (True, h2) \<Rightarrow>
                          let DataU = (if IsUnicode then wcsncpy Data' DataLength
                                       else snwprintf_S Data' DataLength) in
                          bindF (set_key h2 (Some K) (\<lambda>K. K\<lparr>Key_Data := DataU\<rparr>)) (\<lambda>h3.
                          Inr (Some K, h3)))
                 | None \<Rightarrow>
                     (case RtlAllocateHeap h1 of
                        (False, h2) \<Rightarrow> Inr (None, h2)
                      | (True, h2) \<Rightarrow>
                          (case RtlAllocateHeap h2 of
                             (False, h3) \<Rightarrow> Inr (None, h3)
                           | (True, h3) \<Rightarrow>
                               let DataU = (if IsUnicode then wcsncpy Data' DataLength
                                            else snwprintf_S Data' DataLength);
                                   K = length (Keys h3);
                                   h4 = h3\<lparr>Keys := Keys h3 @
                                          [\<lparr>Key_Name = NameU, Key_Data = DataU,
                                            Key_Next = None, Key_Prev = None\<rparr>]\<rparr> in
                               bindF (insert_key_into_section h4 Section AnchorKey InsertionType K)
                                 (\<lambda>h5. Inr (Some K, h5))))))
      | _ \<Rightarrow> Inr (None, h))"

definition IniCacheAddSectionAorW ::
  "heap \<Rightarrow> addr option \<Rightarrow> string option \<Rightarrow> nat \<Rightarrow> bool \<Rightarrow> fault + (addr option \<times> heap)" where
  "IniCacheAddSectionAorW h Cache Name NameLength IsUnicode =
     (case Name of
        None \<Rightarrow> Inr (None, h)
      | Some Name' \<Rightarrow>
          if Cache = None \<or> NameLength = 0 then Inr (None, h)
          else
            (case RtlAllocateHeap h of
               (False, h1) \<Rightarrow> Inr (None, h1)
             | (True, h1) \<Rightarrow>
                 let NameU = (if IsUnicode then wcsncpy Name' NameLength
                              else snwprintf_S Name' NameLength) in
                 bindF (IniCacheFindSection h1 Cache NameU) (\<lambda>Section.
                 case Section of
                   Some S \<Rightarrow> Inr (Some S, h1)
                 | None \<Rightarrow>
                     (case RtlAllocateHeap h1 of
                        (False, h2) \<Rightarrow> Inr (None, h2)
                      | (True, h2) \<Rightarrow>
                          let S = length (Sections h2);
                              h3 = h2\<lparr>Sections := Sections h2 @
                                     [\<lparr>Section_Name = NameU, FirstKey = None, LastKey = None,
                                       Section_Next = None, Section_Prev = None\<rparr>]\<rparr> in
                          bindF (get_cache h3 Cache) (\<lambda>C.
                          if FirstSection C = None then
                            bindF (set_cache h3 Cache
                                     (\<lambda>C. C\<lparr>FirstSection := Some S, LastSection := Some S\<rparr>))
                              (\<lambda>h4. Inr (Some S, h4))
                          else
                            bindF (set_section h3 (LastSection C) (\<lambda>L. L\<lparr>Section_Next := Some S\<rparr>)) (\<lambda>h4.
                            bindF (set_section h4 (Some S) (\<lambda>N. N\<lparr>Section_Prev := LastSection C\<rparr>)) (\<lambda>h5.
                            bindF (set_cache h5 Cache (\<lambda>C. C\<lparr>LastSection := Some S\<rparr>)) (\<lambda>h6.
                            Inr (Some S, h6)))))))))"

subsection \<open>Loading\<close>

lemma IniCacheSkipWhitespace_length:
  "IniCacheSkipWhitespace Ptr = Inr (Some Ptr1) \<Longrightarrow> length Ptr1 \<le> length Ptr"
  by (auto simp: IniCacheSkipWhitespace_def bindF_def dest: scan_length split: sum.splits if_splits)

lemma IniCacheSkipToNextSection_length:
  "IniCacheSkipToNextSection Ptr = Inr (Some Ptr1) \<Longrightarrow> length Ptr1 \<le> length Ptr"
proof (induction Ptr rule: IniCacheSkipToNextSection.induct)
  case (1 Ptr)
  show ?case
  proof (cases "deref Ptr")
    case (Inl e)
    with "1.prems" show ?thesis by (simp add: IniCacheSkipToNextSection.simps [of Ptr])
  next
    case (Inr c)
    show ?thesis
    proof (cases "c \<noteq> NUL \<and> c \<noteq> CHR ''[''")
      case False
      with Inr "1.prems" show ?thesis
        by (auto simp: IniCacheSkipToNextSection.simps [of Ptr] split: if_splits)
    next
      case True
      with Inr "1.prems" obtain n Ptr2 where
        s: "scan (\<lambda>c. c \<noteq> NUL \<and> c \<noteq> LF) Ptr = Inr (n, Ptr2)"
        and r: "IniCacheSkipToNextSection (tl Ptr2) = Inr (Some Ptr1)"
        by (auto simp: IniCacheSkipToNextSection.simps [of Ptr] split: sum.splits)
      from "1.IH" [OF Inr True s refl r] have "length Ptr1 \<le> length (tl Ptr2)" .
      moreover from scan_length [OF s] have "length Ptr2 \<le> length Ptr" by simp
      ultimately show ?thesis by simp
    qed
  qed
qed

lemma IniCacheSkipToNextSection_shorter:
  assumes "IniCacheSkipToNextSection Ptr = Inr (Some Ptr1)"
    and "deref Ptr = Inr c" and "c \<noteq> CHR ''[''"
  shows "length Ptr1 < length Ptr"
proof -
  from assms have nz: "c \<noteq> NUL"
    by (auto simp: IniCacheSkipToNextSection.simps [of Ptr] split: if_splits)
  with assms obtain n Ptr2 where
    s: "scan (\<lambda>c. c \<noteq> NUL \<and> c \<noteq> LF) Ptr = Inr (n, Ptr2)"
    and r: "IniCacheSkipToNextSection (tl Ptr2) = Inr (Some Ptr1)"
    by (auto simp: IniCacheSkipToNextSection.simps [of Ptr] split: sum.splits)
  from scan_length [OF s] have "Ptr2 \<noteq> []" "length Ptr2 \<le> length Ptr" by simp_all
  then have "length (tl Ptr2) < length Ptr" by (cases Ptr2) auto
  with IniCacheSkipToNextSection_length [OF r] show ?thesis by simp
qed

lemma scan_le: "scan P s = Inr (n, r) \<Longrightarrow> length r \<le> length s"
  by (drule scan_length) simp

lemma length_tl_le: "length (tl xs) \<le> length xs"
  by (cases xs) simp_all

lemma IniCacheGetSectionName_length:
  assumes "IniCacheGetSectionName Ptr = Inr (Ptr1, NamePtr, NameSize)"
  shows "length Ptr1 \<le> length Ptr"
proof -
  from assms obtain n1 P1 n2 P2 n3 P3 where
    s1: "scan (\<lambda>c. c \<noteq> NUL \<and> isspace c) Ptr = Inr (n1, P1)"
    and s2: "scan (\<lambda>c. c \<noteq> NUL \<and> c \<noteq> CHR '']'') P1 = Inr (n2, P2)"
    and s3: "scan (\<lambda>c. c \<noteq> NUL \<and> c \<noteq> LF) (tl P2) = Inr (n3, P3)"
    and r: "Ptr1 = tl P3"
    by (auto simp: IniCacheGetSectionName_def bindF_def split: sum.splits)
  have "length Ptr1 \<le> length P3" using r length_tl_le by simp
  also have "\<dots> \<le> length (tl P2)" by (rule scan_le [OF s3])
  also have "\<dots> \<le> length P2" by (rule length_tl_le)
  also have "\<dots> \<le> length P1" by (rule scan_le [OF s2])
  also have "\<dots> \<le> length Ptr" by (rule scan_le [OF s1])
  finally show ?thesis .
qed

lemma IniCacheGetKeyName_loop_length:
  "IniCacheGetKeyName_loop Ptr NamePtr NameSize = Inr (Ptr1, NamePtr1, NameSize1)
   \<Longrightarrow> length Ptr1 \<le> length Ptr"
proof (induction Ptr NamePtr NameSize rule: IniCacheGetKeyName_loop.induct)
  case (1 Ptr NamePtr NameSize)
  note simps = IniCacheGetKeyName_loop.simps [of Ptr NamePtr NameSize]
  show ?case
  proof (cases "deref Ptr")
    case (Inl e)
    with "1.prems" show ?thesis by (simp add: simps)
  next
    case c: (Inr c)
    show ?thesis
    proof (cases "c = NUL")
      case True
      with c "1.prems" show ?thesis by (simp add: simps)
    next
      case nz: False
      with c "1.prems" obtain n1 P1 where
        s1: "scan (\<lambda>c. isspace c \<or> c = LF \<or> c = CR) Ptr = Inr (n1, P1)"
        by (auto simp: simps split: sum.splits)
      from scan_length [OF s1] have l1: "length P1 \<le> length Ptr" by simp
      from c nz s1 "1.prems" obtain c1 where c1: "deref P1 = Inr c1"
        by (auto simp: simps split: sum.splits)
      show ?thesis
      proof (cases "c1 = NUL")
        case True
        with c nz s1 c1 "1.prems" l1 show ?thesis by (auto simp: simps)
      next
        case nz1: False
        with c nz s1 c1 "1.prems" obtain Size P2 where
          s2: "scan (\<lambda>c. c \<noteq> NUL \<and> \<not> isspace c \<and> c \<noteq> CHR ''='' \<and> c \<noteq> CHR '';'') P1 = Inr (Size, P2)"
          by (auto simp: simps split: sum.splits)
        from scan_length [OF s2] have l2: "length P2 \<le> length P1" by simp
        from c nz s1 c1 nz1 s2 "1.prems" obtain c2 where c2: "deref P2 = Inr c2"
          by (auto simp: simps split: sum.splits)
        show ?thesis
        proof (cases "c2 = CHR '';''")
          case False
          with c nz s1 c1 nz1 s2 c2 "1.prems" l1 l2 show ?thesis by (auto simp: simps)
        next
          case True
          with c nz s1 c1 nz1 s2 c2 "1.prems" obtain n3 P3 where
            s3: "scan (\<lambda>c. c \<noteq> NUL \<and> c \<noteq> CR \<and> c \<noteq> LF) P2 = Inr (n3, P3)"
            and r: "IniCacheGetKeyName_loop P3 (Some P1) 0 = Inr (Ptr1, NamePtr1, NameSize1)"
            by (auto simp: simps split: sum.splits)
          from "1.IH" [OF c nz s1 refl c1 nz1 s2 refl c2 True s3 refl r]
          have "length Ptr1 \<le> length P3" .
          moreover from scan_length [OF s3] have "length P3 \<le> length P2" by simp
          ultimately show ?thesis using l1 l2 by simp
        qed
      qed
    qed
  qed
qed

lemma skip_to_next_line_length:
  assumes "skip_to_next_line P D S = Inr (Some Q, D', S')"
  shows "length Q \<le> length P"
proof -
  from assms obtain c c1 where
    q: "Q = (let P1 = (if c = CR then tl P else P) in if c1 = LF then tl P1 else P1)"
    by (auto simp: skip_to_next_line_def bindF_def Let_def split: sum.splits)
  have "length (tl (tl P)) \<le> length P"
    using length_tl_le [of "tl P"] length_tl_le [of P] by simp
  then show ?thesis using q length_tl_le [of P] by (simp add: Let_def)
qed

lemma IniCacheGetKeyValue_shorter:
  assumes a: "IniCacheGetKeyValue Ptr String = Inr (Some Ptr1, DataPtr, DataSize)"
  shows "length Ptr1 < length Ptr"
proof -
  from a obtain n0 P0 c where s0: "scan (\<lambda>c. c \<noteq> NUL \<and> isspace c) Ptr = Inr (n0, P0)"
    and c: "deref P0 = Inr c"
    by (auto simp: IniCacheGetKeyValue_def bindF_def split: sum.splits)
  from scan_length [OF s0] have l0: "P0 \<noteq> []" "length P0 \<le> length Ptr" by simp_all
  then have l0': "length (tl P0) < length Ptr" by (cases P0) auto
  from a s0 c have eq: "c = CHR ''=''"
    by (auto simp: IniCacheGetKeyValue_def bindF_def split: if_splits)
  with a s0 c obtain n2 P2 c2 where s2: "scan (\<lambda>c. c \<noteq> NUL \<and> isspace c) (tl P0) = Inr (n2, P2)"
    and c2: "deref P2 = Inr c2"
    by (auto simp: IniCacheGetKeyValue_def bindF_def split: sum.splits)
  from scan_le [OF s2] l0' have l2: "length P2 < length Ptr" by simp
  show ?thesis
  proof (cases "c2 = CHR 0x22 \<and> String")
    case True
    with a s0 c eq s2 c2 obtain n3 P3 n4 P4 where
      s3: "scan (\<lambda>c. c \<noteq> CHR 0x22) (tl P2) = Inr (n3, P3)"
      and s4: "scan (\<lambda>c. c \<noteq> NUL \<and> c \<noteq> CR \<and> c \<noteq> LF) (tl P3) = Inr (n4, P4)"
      and r: "skip_to_next_line P4 (Some (tl P2)) n3 = Inr (Some Ptr1, DataPtr, DataSize)"
      by (auto simp: IniCacheGetKeyValue_def bindF_def split: sum.splits)
    have "length Ptr1 \<le> length P4" by (rule skip_to_next_line_length [OF r])
    also have "\<dots> \<le> length (tl P3)" by (rule scan_le [OF s4])
    also have "\<dots> \<le> length P3" by (rule length_tl_le)
    also have "\<dots> \<le> length (tl P2)" by (rule scan_le [OF s3])
    also have "\<dots> \<le> length P2" by (rule length_tl_le)
    finally show ?thesis using l2 by simp
  next
    case False
    with a s0 c eq s2 c2 obtain n3 P3 where
      s3: "scan (\<lambda>c. c \<noteq> NUL \<and> c \<noteq> CR \<and> c \<noteq> CHR '';'') P2 = Inr (n3, P3)"
      and r: "skip_to_next_line P3 (Some P2) n3 = Inr (Some Ptr1, DataPtr, DataSize)"
      by (auto simp: IniCacheGetKeyValue_def bindF_def split: sum.splits if_splits)
    have "length Ptr1 \<le> length P3" by (rule skip_to_next_line_length [OF r])
    also have "\<dots> \<le> length P2" by (rule scan_le [OF s3])
    finally show ?thesis using l2 by simp
  qed
qed

text \<open>
  The parse loop of \<^verbatim>\<open>IniCacheLoadFromMemory\<close>. Its state is the heap, the cache, the
  current section and \<^verbatim>\<open>Ptr\<close>. After \<^verbatim>\<open>continue\<close> with a null \<^verbatim>\<open>Ptr\<close> the loop
  condition is false.
\<close>

definition ptr_measure :: "string option \<Rightarrow> nat" where
  "ptr_measure Ptr = (case Ptr of None \<Rightarrow> 0 | Some P \<Rightarrow> Suc (length P))"

function IniCacheLoadFromMemory_loop ::
  "heap \<Rightarrow> addr option \<Rightarrow> addr option \<Rightarrow> string option \<Rightarrow> bool \<Rightarrow> fault + heap" where
  "IniCacheLoadFromMemory_loop h Cache Section Ptr String =
     (case Ptr of
        None \<Rightarrow> Inr h
      | Some P \<Rightarrow>
          (case deref P of
             Inl e \<Rightarrow> Inl e
           | Inr c \<Rightarrow>
               if c = NUL then Inr h
               else
                 (case IniCacheSkipWhitespace P of
                    Inl e \<Rightarrow> Inl e
                  | Inr None \<Rightarrow> Inr h
                  | Inr (Some P1) \<Rightarrow>
                      (case deref P1 of
                         Inl e \<Rightarrow> Inl e
                       | Inr c1 \<Rightarrow>
                           if c1 = CHR ''['' then
                             (case IniCacheGetSectionName (tl P1) of
                                Inl e \<Rightarrow> Inl e
                              | Inr (P2, SectionName, SectionNameSize) \<Rightarrow>
                                  (case IniCacheAddSectionAorW h Cache SectionName SectionNameSize False of
                                     Inl e \<Rightarrow> Inl e
                                   | Inr (None, h1) \<Rightarrow>
                                       (case IniCacheSkipToNextSection P2 of
                                          Inl e \<Rightarrow> Inl e
                                        | Inr P3 \<Rightarrow> IniCacheLoadFromMemory_loop h1 Cache None P3 String)
                                   | Inr (Some S, h1) \<Rightarrow>
                                       IniCacheLoadFromMemory_loop h1 Cache (Some S) (Some P2) String))
                           else if Section = None then
                             (case IniCacheSkipToNextSection P1 of
                                Inl e \<Rightarrow> Inl e
                              | Inr P2 \<Rightarrow> IniCacheLoadFromMemory_loop h Cache None P2 String)
                           else
                             (case IniCacheGetKeyName P1 of
                                Inl e \<Rightarrow> Inl e
                              | Inr (P2, KeyName, KeyNameSize) \<Rightarrow>
                                  (case IniCacheGetKeyValue P2 String of
                                     Inl e \<Rightarrow> Inl e
                                   | Inr (P3, KeyValue, KeyValueSize) \<Rightarrow>
                                       (case IniCacheAddKeyAorW h Section None INSERT_LAST
                                               KeyName KeyNameSize KeyValue KeyValueSize False of
                                          Inl e \<Rightarrow> Inl e
                                        | Inr (Key, h1) \<Rightarrow>
                                            IniCacheLoadFromMemory_loop h1 Cache Section P3 String)))))))"
  by pat_completeness auto
termination
proof (relation "measure (\<lambda>(h, Cache, Section, Ptr, String). ptr_measure Ptr)")
  fix P P1 P2 :: string and c1 :: char and SectionName :: "string option" and SectionNameSize :: nat
    and x y P3 w and h h1 :: heap and Cache Section :: "addr option" and String :: bool and Ptr
  assume p: "Ptr = Some P"
    and w: "IniCacheSkipWhitespace P = Inr w" "w = Some P1"
    and d: "deref P1 = Inr c1"
    and g: "IniCacheGetSectionName (tl P1) = Inr x" "(P2, y) = x" "(SectionName, SectionNameSize) = y"
    and s: "IniCacheSkipToNextSection P2 = Inr P3"
  from g have "length P2 \<le> length (tl P1)"
    using IniCacheGetSectionName_length [of "tl P1" P2 SectionName SectionNameSize] by simp
  moreover from d have "length (tl P1) < length P1" by (cases P1) (auto simp: deref_def)
  ultimately have "length P2 < length P"
    using IniCacheSkipWhitespace_length [of P P1] w by simp
  with s p show "((h1, Cache, None, P3, String), (h, Cache, Section, Ptr, String))
      \<in> measure (\<lambda>(h, Cache, Section, Ptr, String). ptr_measure Ptr)"
    using IniCacheSkipToNextSection_length [of P2] by (cases P3) (auto simp: ptr_measure_def)
next
  fix P P1 P2 :: string and c1 :: char and SectionName :: "string option" and SectionNameSize :: nat
    and x y w and h h1 :: heap and Cache Section :: "addr option" and String :: bool and S :: addr and Ptr
  assume p: "Ptr = Some P"
    and w: "IniCacheSkipWhitespace P = Inr w" "w = Some P1"
    and d: "deref P1 = Inr c1"
    and g: "IniCacheGetSectionName (tl P1) = Inr x" "(P2, y) = x" "(SectionName, SectionNameSize) = y"
  from g have "length P2 \<le> length (tl P1)"
    using IniCacheGetSectionName_length [of "tl P1" P2 SectionName SectionNameSize] by simp
  moreover from d have "length (tl P1) < length P1" by (cases P1) (auto simp: deref_def)
  ultimately show "((h1, Cache, Some S, Some P2, String), (h, Cache, Section, Ptr, String))
      \<in> measure (\<lambda>(h, Cache, Section, Ptr, String). ptr_measure Ptr)"
    using IniCacheSkipWhitespace_length [of P P1] w p by (simp add: ptr_measure_def)
next
  fix P P1 :: string and c1 :: char and P2 w and h :: heap and Cache Section :: "addr option"
    and String :: bool and Ptr
  assume p: "Ptr = Some P"
    and w: "IniCacheSkipWhitespace P = Inr w" "w = Some P1"
    and d: "deref P1 = Inr c1" "c1 \<noteq> CHR ''[''"
    and s: "IniCacheSkipToNextSection P1 = Inr P2"
  show "((h, Cache, None, P2, String), (h, Cache, Section, Ptr, String))
      \<in> measure (\<lambda>(h, Cache, Section, Ptr, String). ptr_measure Ptr)"
  proof (cases P2)
    case None
    with p show ?thesis by (simp add: ptr_measure_def)
  next
    case (Some Q)
    with s d have "length Q < length P1" by (auto dest: IniCacheSkipToNextSection_shorter)
    with Some p IniCacheSkipWhitespace_length [of P P1] w show ?thesis
      by (simp add: ptr_measure_def)
  qed
next
  fix P P1 P2 :: string and KeyName KeyValue :: "string option" and KeyNameSize KeyValueSize :: nat
    and x y x' y' P3 w and h h1 :: heap and Cache Section :: "addr option" and String :: bool and Ptr
  assume p: "Ptr = Some P"
    and w: "IniCacheSkipWhitespace P = Inr w" "w = Some P1"
    and n: "IniCacheGetKeyName P1 = Inr x" "(P2, y) = x" "(KeyName, KeyNameSize) = y"
    and v: "IniCacheGetKeyValue P2 String = Inr x'" "(P3, y') = x'" "(KeyValue, KeyValueSize) = y'"
  from n have l2: "length P2 \<le> length P1"
    using IniCacheGetKeyName_loop_length [of P1 None 0 P2 KeyName KeyNameSize]
    by (simp add: IniCacheGetKeyName_def)
  show "((h1, Cache, Section, P3, String), (h, Cache, Section, Ptr, String))
      \<in> measure (\<lambda>(h, Cache, Section, Ptr, String). ptr_measure Ptr)"
  proof (cases P3)
    case None
    with p show ?thesis by (simp add: ptr_measure_def)
  next
    case (Some Q)
    with v have "length Q < length P2"
      using IniCacheGetKeyValue_shorter [of P2 String Q KeyValue KeyValueSize] by simp
    with Some l2 p IniCacheSkipWhitespace_length [of P P1] w show ?thesis
      by (simp add: ptr_measure_def)
  qed
qed simp

declare IniCacheLoadFromMemory_loop.simps [simp del]

text \<open>
  \<^verbatim>\<open>IniCacheLoadFromMemory\<close>: the status, \<^verbatim>\<open>*Cache\<close> and the heap. \<^verbatim>\<open>FileLength\<close> is not
  used by the source.
\<close>

definition IniCacheLoadFromMemory ::
  "heap \<Rightarrow> string \<Rightarrow> nat \<Rightarrow> bool \<Rightarrow> fault + (NTSTATUS \<times> addr option \<times> heap)" where
  "IniCacheLoadFromMemory h FileBuffer FileLength String =
     (case RtlAllocateHeap h of
        (False, h1) \<Rightarrow> Inr (STATUS_INSUFFICIENT_RESOURCES, None, h1)
      | (True, h1) \<Rightarrow>
          let Cache = Some (length (Caches h1));
              h2 = h1\<lparr>Caches := Caches h1 @ [\<lparr>FirstSection = None, LastSection = None\<rparr>]\<rparr> in
          bindF (IniCacheLoadFromMemory_loop h2 Cache None (Some FileBuffer) String) (\<lambda>h3.
          Inr (STATUS_SUCCESS, Cache, h3)))"

text \<open>
  The file behind a handle, as the loader sees it: the status of the size query, the
  status of the read, and the bytes the read leaves in the buffer (as many as the size
  that was queried).
\<close>

record FILE_HANDLE =
  QueryStatus :: NTSTATUS
  ReadStatus :: NTSTATUS
  Contents :: string

definition IniCacheLoadByHandle ::
  "heap \<Rightarrow> FILE_HANDLE \<Rightarrow> bool \<Rightarrow> fault + (NTSTATUS \<times> addr option \<times> heap)" where
  "IniCacheLoadByHandle h FileHandle String =
     (if \<not> NT_SUCCESS (QueryStatus FileHandle) then Inr (QueryStatus FileHandle, None, h)
      else
        let FileLength = length (Contents FileHandle) in
        (case RtlAllocateHeap h of
           (False, h1) \<Rightarrow> Inr (STATUS_INSUFFICIENT_RESOURCES, None, h1)
         | (True, h1) \<Rightarrow>
             let FileBuffer = Contents FileHandle @ [NUL] in
             if \<not> NT_SUCCESS (ReadStatus FileHandle) then Inr (ReadStatus FileHandle, None, h1)
             else IniCacheLoadFromMemory h1 FileBuffer FileLength String))"

text \<open>\<^verbatim>\<open>IniCacheLoad\<close>: \<open>OpenFile\<close> is the outcome of \<^verbatim>\<open>NtOpenFile\<close>, a status or the handle.\<close>

definition IniCacheLoad ::
  "heap \<Rightarrow> NTSTATUS + FILE_HANDLE \<Rightarrow> bool \<Rightarrow> fault + (NTSTATUS \<times> addr option \<times> heap)" where
  "IniCacheLoad h OpenFile String =
     (case OpenFile of
        Inl Status \<Rightarrow> Inr (Status, None, h)
      | Inr FileHandle \<Rightarrow> IniCacheLoadByHandle h FileHandle String)"

subsection \<open>The public functions on the store\<close>

definition IniGetSection :: "heap \<Rightarrow> addr option \<Rightarrow> string option \<Rightarrow> fault + addr option" where
  "IniGetSection h Cache Name =
     (case Name of
        None \<Rightarrow> Inr None
      | Some Name' \<Rightarrow> if Cache = None then Inr None else IniCacheFindSection h Cache Name')"

text \<open>
  \<^verbatim>\<open>IniGetKey\<close>: \<open>KeyData\<close> is the pointer to the caller's variable (\<open>None\<close> when null,
  otherwise the variable's content, itself a pointer to characters). The result is the
  status and the variable after the call.
\<close>

definition IniGetKey ::
  "heap \<Rightarrow> addr option \<Rightarrow> string option \<Rightarrow> string option option \<Rightarrow>
     fault + (NTSTATUS \<times> string option option)" where
  "IniGetKey h Section KeyName KeyData =
     (case (KeyName, KeyData) of
        (Some KeyName', Some _) \<Rightarrow>
          if Section = None then Inr (STATUS_INVALID_PARAMETER, KeyData)
          else
            bindF (IniCacheFindKey h Section KeyName') (\<lambda>Key.
            case Key of
              None \<Rightarrow> Inr (STATUS_INVALID_PARAMETER, Some None)
            | Some K \<Rightarrow>
                bindF (get_key h (Some K)) (\<lambda>K'.
                Inr (STATUS_SUCCESS, Some (Some (Key_Data K')))))
      | _ \<Rightarrow> Inr (STATUS_INVALID_PARAMETER, KeyData))"

definition IniAddSection :: "heap \<Rightarrow> addr option \<Rightarrow> string option \<Rightarrow> fault + (addr option \<times> heap)" where
  "IniAddSection h Cache Name =
     (case Name of
        None \<Rightarrow> Inr (None, h)
      | Some Name' \<Rightarrow>
          if Cache = None \<or> c_str Name' = [] then Inr (None, h)
          else IniCacheAddSectionAorW h Cache Name (wcslen Name') True)"

definition IniInsertKey ::
  "heap \<Rightarrow> addr option \<Rightarrow> addr option \<Rightarrow> INSERTION_TYPE \<Rightarrow> string option \<Rightarrow> string option \<Rightarrow>
     fault + (addr option \<times> heap)" where
  "IniInsertKey h Section AnchorKey InsertionType Name Data =
     (case (Name, Data) of
        (Some Name', Some Data') \<Rightarrow>
          if Section = None \<or> c_str Name' = [] \<or> c_str Data' = [] then Inr (None, h)
          else IniCacheAddKeyAorW h Section AnchorKey InsertionType
                 Name (wcslen Name') Data (wcslen Data') True
      | _ \<Rightarrow> Inr (None, h))"

definition IniAddKey ::
  "heap \<Rightarrow> addr option \<Rightarrow> string option \<Rightarrow> string option \<Rightarrow> fault + (addr option \<times> heap)" where
  "IniAddKey h Section Name Data = IniInsertKey h Section None INSERT_LAST Name Data"

definition IniCacheCreate :: "heap \<Rightarrow> addr option \<times> heap" where
  "IniCacheCreate h =
     (case RtlAllocateHeap h of
        (False, h1) \<Rightarrow> (None, h1)
      | (True, h1) \<Rightarrow>
          (Some (length (Caches h1)),
           h1\<lparr>Caches := Caches h1 @ [\<lparr>FirstSection = None, LastSection = None\<rparr>]\<rparr>))"

subsection \<open>Saving\<close>

text \<open>The first pass of \<^verbatim>\<open>IniCacheSaveByHandle\<close>: the size of the buffer.\<close>

fun BufferSize_keys :: "nat \<Rightarrow> heap \<Rightarrow> addr option \<Rightarrow> nat \<Rightarrow> fault + nat" where
  "BufferSize_keys fuel h None BufferSize = Inr BufferSize"
| "BufferSize_keys 0 h (Some a) BufferSize = Inl Diverges"
| "BufferSize_keys (Suc fuel) h (Some a) BufferSize =
     bindF (get_key h (Some a)) (\<lambda>K.
     BufferSize_keys fuel h (Key_Next K)
       (BufferSize + (wcslen (Key_Name K) + wcslen (Key_Data K) + 3)))"

fun BufferSize_sections :: "nat \<Rightarrow> heap \<Rightarrow> addr option \<Rightarrow> nat \<Rightarrow> fault + nat" where
  "BufferSize_sections fuel h None BufferSize = Inr BufferSize"
| "BufferSize_sections 0 h (Some a) BufferSize = Inl Diverges"
| "BufferSize_sections (Suc fuel) h (Some a) BufferSize =
     bindF (get_section h (Some a)) (\<lambda>S.
     bindF (BufferSize_keys (Suc (length (Keys h))) h (FirstKey S)
              (BufferSize + (wcslen (Section_Name S) + 4))) (\<lambda>BufferSize.
     BufferSize_sections fuel h (Section_Next S)
       (if Section_Next S \<noteq> None then BufferSize + 2 else BufferSize)))"

text \<open>
  The second pass: \<open>Buffer\<close> is what \<^verbatim>\<open>sprintf\<close> has written so far, from the start of
  the buffer to \<^verbatim>\<open>Ptr\<close>.
\<close>

fun fill_keys :: "nat \<Rightarrow> heap \<Rightarrow> addr option \<Rightarrow> string \<Rightarrow> fault + string" where
  "fill_keys fuel h None Buffer = Inr Buffer"
| "fill_keys 0 h (Some a) Buffer = Inl Diverges"
| "fill_keys (Suc fuel) h (Some a) Buffer =
     bindF (get_key h (Some a)) (\<lambda>K.
     fill_keys fuel h (Key_Next K)
       (Buffer @ c_str (Key_Name K) @ ''='' @ c_str (Key_Data K) @ CRLF))"

fun fill_sections :: "nat \<Rightarrow> heap \<Rightarrow> addr option \<Rightarrow> string \<Rightarrow> fault + string" where
  "fill_sections fuel h None Buffer = Inr Buffer"
| "fill_sections 0 h (Some a) Buffer = Inl Diverges"
| "fill_sections (Suc fuel) h (Some a) Buffer =
     bindF (get_section h (Some a)) (\<lambda>S.
     bindF (fill_keys (Suc (length (Keys h))) h (FirstKey S)
              (Buffer @ ''['' @ c_str (Section_Name S) @ '']'' @ CRLF)) (\<lambda>Buffer.
     fill_sections fuel h (Section_Next S)
       (if Section_Next S \<noteq> None then Buffer @ CRLF else Buffer)))"

text \<open>
  \<^verbatim>\<open>IniCacheSaveByHandle\<close>. \<open>NtWriteFile\<close> is the status with which the handle answers a
  write of the given bytes. The result is the status, the bytes handed to
  \<^verbatim>\<open>NtWriteFile\<close> (if it was called) and the heap. The buffer holds \<open>BufferSize + 1\<close>
  zeroed bytes; \<^verbatim>\<open>sprintf\<close> writing more than that is the fault \<open>BufferOverrun\<close>.
\<close>

definition IniCacheSaveByHandle ::
  "heap \<Rightarrow> addr option \<Rightarrow> (string \<Rightarrow> NTSTATUS) \<Rightarrow> fault + (NTSTATUS \<times> string option \<times> heap)" where
  "IniCacheSaveByHandle h Cache NtWriteFile =
     bindF (get_cache h Cache) (\<lambda>C.
     bindF (BufferSize_sections (Suc (length (Sections h))) h (FirstSection C) 0) (\<lambda>BufferSize.
     case RtlAllocateHeap h of
       (False, h1) \<Rightarrow> Inr (STATUS_INSUFFICIENT_RESOURCES, None, h1)
     | (True, h1) \<Rightarrow>
         bindF (fill_sections (Suc (length (Sections h1))) h1 (FirstSection C) []) (\<lambda>Text.
         if BufferSize < length Text then Inl BufferOverrun
         else
           let Buffer = Text @ replicate (BufferSize + 1 - length Text) NUL;
               Written = take BufferSize Buffer;
               Status = NtWriteFile Written in
           if \<not> NT_SUCCESS Status then Inr (Status, Some Written, h1)
           else Inr (STATUS_SUCCESS, Some Written, h1))))"

subsection \<open>Reading a cache as a sequence\<close>

text \<open>
  The sections of a cache and the keys of a section in the order of their \<^verbatim>\<open>Next\<close>
  links, as \<^verbatim>\<open>IniFindFirstValue\<close> and \<^verbatim>\<open>IniFindNextValue\<close> enumerate them.
\<close>

fun key_chain :: "nat \<Rightarrow> heap \<Rightarrow> addr option \<Rightarrow> fault + addr list" where
  "key_chain fuel h None = Inr []"
| "key_chain 0 h (Some a) = Inl Diverges"
| "key_chain (Suc fuel) h (Some a) =
     bindF (get_key h (Some a)) (\<lambda>K.
     bindF (key_chain fuel h (Key_Next K)) (\<lambda>as. Inr (a # as)))"

fun section_chain :: "nat \<Rightarrow> heap \<Rightarrow> addr option \<Rightarrow> fault + addr list" where
  "section_chain fuel h None = Inr []"
| "section_chain 0 h (Some a) = Inl Diverges"
| "section_chain (Suc fuel) h (Some a) =
     bindF (get_section h (Some a)) (\<lambda>S.
     bindF (section_chain fuel h (Section_Next S)) (\<lambda>as. Inr (a # as)))"

definition section_keys :: "heap \<Rightarrow> addr \<Rightarrow> fault + addr list" where
  "section_keys h s =
     bindF (get_section h (Some s)) (\<lambda>S. key_chain (Suc (length (Keys h))) h (FirstKey S))"

definition cache_sections :: "heap \<Rightarrow> addr option \<Rightarrow> fault + addr list" where
  "cache_sections h Cache =
     bindF (get_cache h Cache) (\<lambda>C. section_chain (Suc (length (Sections h))) h (FirstSection C))"

type_synonym entries = "(string \<times> (string \<times> string) list) list"

definition section_entries :: "heap \<Rightarrow> addr \<Rightarrow> fault + (string \<times> (string \<times> string) list)" where
  "section_entries h s =
     bindF (section_keys h s) (\<lambda>ks.
     Inr (c_str (Section_Name (Sections h ! s)),
          map (\<lambda>k. (c_str (Key_Name (Keys h ! k)), c_str (Key_Data (Keys h ! k)))) ks))"

fun sections_entries :: "heap \<Rightarrow> addr list \<Rightarrow> fault + entries" where
  "sections_entries h [] = Inr []"
| "sections_entries h (s # ss) =
     bindF (section_entries h s) (\<lambda>e.
     bindF (sections_entries h ss) (\<lambda>es. Inr (e # es)))"

definition cache_entries :: "heap \<Rightarrow> addr option \<Rightarrow> fault + entries" where
  "cache_entries h Cache = bindF (cache_sections h Cache) (sections_entries h)"

text \<open>The first key of a list of keys whose name compares equal to \<open>Name\<close>.\<close>

definition matching_key :: "heap \<Rightarrow> addr list \<Rightarrow> string \<Rightarrow> addr option" where
  "matching_key h ks Name = find (\<lambda>k. wcsicmp (Key_Name (Keys h ! k)) Name = 0) ks"

definition matching_section :: "heap \<Rightarrow> addr list \<Rightarrow> string \<Rightarrow> addr option" where
  "matching_section h ss Name = find (\<lambda>s. wcsicmp (Section_Name (Sections h ! s)) Name = 0) ss"

subsection \<open>Example heaps\<close>

definition empty_heap :: heap where
  "empty_heap = \<lparr>Keys = [], Sections = [], Caches = [], Allocs = []\<rparr>"

text \<open>
  One cache with the sections \<^verbatim>\<open>[A]\<close>, holding \<^verbatim>\<open>x=1\<close>, and \<^verbatim>\<open>[B]\<close>, holding \<^verbatim>\<open>y=2\<close> and
  \<^verbatim>\<open>z=3\<close>.
\<close>

definition example_heap :: heap where
  "example_heap =
     \<lparr>Keys =
        [\<lparr>Key_Name = ''x'', Key_Data = ''1'', Key_Next = None, Key_Prev = None\<rparr>,
         \<lparr>Key_Name = ''y'', Key_Data = ''2'', Key_Next = Some 2, Key_Prev = None\<rparr>,
         \<lparr>Key_Name = ''z'', Key_Data = ''3'', Key_Next = None, Key_Prev = Some 1\<rparr>],
      Sections =
        [\<lparr>Section_Name = ''A'', FirstKey = Some 0, LastKey = Some 0,
          Section_Next = Some 1, Section_Prev = None\<rparr>,
         \<lparr>Section_Name = ''B'', FirstKey = Some 1, LastKey = Some 2,
          Section_Next = None, Section_Prev = Some 0\<rparr>],
      Caches = [\<lparr>FirstSection = Some 0, LastSection = Some 1\<rparr>],
      Allocs = []\<rparr>"

text \<open>The keys, sections and cache headers of \<open>h'\<close> are those of \<open>h\<close>.\<close>

definition unchanged_store :: "heap \<Rightarrow> heap \<Rightarrow> bool" where
  "unchanged_store h h' \<longleftrightarrow>
     Keys h' = Keys h \<and> Sections h' = Sections h \<and> Caches h' = Caches h"

text \<open>
  The next \<open>n\<close> allocations succeed; the heap once \<open>n\<close> allocations have been answered;
  the heap with the value of key \<open>k\<close> replaced.
\<close>

definition allocs_succeed :: "nat \<Rightarrow> heap \<Rightarrow> bool" where
  "allocs_succeed n h \<longleftrightarrow> list_all id (take n (Allocs h))"

definition after_allocs :: "nat \<Rightarrow> heap \<Rightarrow> heap" where
  "after_allocs n h = h\<lparr>Allocs := drop n (Allocs h)\<rparr>"

definition with_key_data :: "heap \<Rightarrow> addr \<Rightarrow> string \<Rightarrow> heap" where
  "with_key_data h k d = h\<lparr>Keys := (Keys h)[k := (Keys h ! k)\<lparr>Key_Data := d\<rparr>]\<rparr>"

subsection \<open>Well-formed caches\<close>

text \<open>
  \<open>path nxt n p as\<close>: following the links \<open>nxt\<close> from the pointer \<open>p\<close> visits the
  addresses \<open>as\<close>, all below \<open>n\<close>, and ends at the null pointer. A cache is well formed
  with layout \<open>L\<close> (its sections in order, each with its keys in order) when its
  sections are linked from \<^verbatim>\<open>FirstSection\<close> to \<^verbatim>\<open>LastSection\<close>, the keys of each section
  from \<^verbatim>\<open>FirstKey\<close> to \<^verbatim>\<open>LastKey\<close>, and no key belongs to two sections. \<open>entries_of\<close> reads
  the names and values off the layout.
\<close>

fun path :: "(addr \<Rightarrow> addr option) \<Rightarrow> nat \<Rightarrow> addr option \<Rightarrow> addr list \<Rightarrow> bool" where
  "path nxt n p [] \<longleftrightarrow> p = None"
| "path nxt n p (a # as) \<longleftrightarrow> p = Some a \<and> a < n \<and> path nxt n (nxt a) as"

definition key_path :: "heap \<Rightarrow> addr option \<Rightarrow> addr list \<Rightarrow> bool" where
  "key_path h = path (\<lambda>a. Key_Next (Keys h ! a)) (length (Keys h))"

definition section_path :: "heap \<Rightarrow> addr option \<Rightarrow> addr list \<Rightarrow> bool" where
  "section_path h = path (\<lambda>a. Section_Next (Sections h ! a)) (length (Sections h))"

definition last_of :: "addr list \<Rightarrow> addr option" where
  "last_of as = (if as = [] then None else Some (last as))"

definition section_ok :: "heap \<Rightarrow> addr \<times> addr list \<Rightarrow> bool" where
  "section_ok h sk \<longleftrightarrow>
     (case sk of (s, ks) \<Rightarrow>
        s < length (Sections h) \<and> key_path h (FirstKey (Sections h ! s)) ks
        \<and> LastKey (Sections h ! s) = last_of ks)"

definition cache_ok :: "heap \<Rightarrow> addr \<Rightarrow> (addr \<times> addr list) list \<Rightarrow> bool" where
  "cache_ok h c L \<longleftrightarrow>
     c < length (Caches h)
     \<and> section_path h (FirstSection (Caches h ! c)) (map fst L)
     \<and> LastSection (Caches h ! c) = last_of (map fst L)
     \<and> list_all (section_ok h) L
     \<and> distinct (concat (map snd L))"

definition entries_of :: "heap \<Rightarrow> (addr \<times> addr list) list \<Rightarrow> entries" where
  "entries_of h L =
     map (\<lambda>(s, ks). (c_str (Section_Name (Sections h ! s)),
            map (\<lambda>k. (c_str (Key_Name (Keys h ! k)), c_str (Key_Data (Keys h ! k)))) ks)) L"

text \<open>The position of the first element of a list that satisfies \<open>P\<close>.\<close>

fun first_index :: "('a \<Rightarrow> bool) \<Rightarrow> 'a list \<Rightarrow> nat option" where
  "first_index P [] = None"
| "first_index P (x # xs) = (if P x then Some 0 else map_option Suc (first_index P xs))"

subsection \<open>The text of a cache\<close>

text \<open>
  The rendering the specification asks for (section 4.4): for each section in order the
  line \<^verbatim>\<open>[Name]\<close>, then each key as the line \<^verbatim>\<open>Name=Value\<close>, every line ended by CR LF,
  one more CR LF between consecutive sections and none after the last; values are
  written as they are.
\<close>

definition render_key :: "string \<times> string \<Rightarrow> string" where
  "render_key kv = fst kv @ ''='' @ snd kv @ CRLF"

definition render_section :: "string \<times> (string \<times> string) list \<Rightarrow> string" where
  "render_section e = ''['' @ fst e @ '']'' @ CRLF @ concat (map render_key (snd e))"

fun render_entries :: "entries \<Rightarrow> string" where
  "render_entries [] = []"
| "render_entries [e] = render_section e"
| "render_entries (e # es) = render_section e @ CRLF @ render_entries es"

definition key_entry :: "heap \<Rightarrow> addr \<Rightarrow> string \<times> string" where
  "key_entry h k = (c_str (Key_Name (Keys h ! k)), c_str (Key_Data (Keys h ! k)))"

subsection \<open>The store as a sequence of entries\<close>

text \<open>
  What \<^verbatim>\<open>IniCacheAddSectionAorW\<close> and \<^verbatim>\<open>IniCacheAddKeyAorW\<close> (with \<^verbatim>\<open>INSERT_LAST\<close>) do to the
  sequence of entries of a well-formed cache: the index of the section found or appended,
  and the new sequence.
\<close>

definition entries_add_key :: "entries \<Rightarrow> nat \<Rightarrow> string \<Rightarrow> string \<Rightarrow> entries" where
  "entries_add_key es i Name Data =
     es[i := (fst (es ! i),
              case first_index (\<lambda>kv. wcsicmp (fst kv) Name = 0) (snd (es ! i)) of
                None \<Rightarrow> snd (es ! i) @ [(Name, Data)]
              | Some j \<Rightarrow> (snd (es ! i))[j := (fst (snd (es ! i) ! j), Data)])]"

definition entries_add_section :: "entries \<Rightarrow> string \<Rightarrow> nat \<times> entries" where
  "entries_add_section es Name =
     (case first_index (\<lambda>e. wcsicmp (fst e) Name = 0) es of
        Some i \<Rightarrow> (i, es)
      | None \<Rightarrow> (length es, es @ [(Name, [])]))"

text \<open>
  The parse loop of \<^verbatim>\<open>IniCacheLoadFromMemory\<close> once more, on entries instead of the heap:
  the same scanner calls in the same order, the two store operations replaced by their
  effect on the sequence of entries when no allocation fails. The current section is its
  position in the sequence.
\<close>

definition entries_AddSection :: "entries \<Rightarrow> string option \<Rightarrow> nat \<Rightarrow> nat option \<times> entries" where
  "entries_AddSection es Name NameLength =
     (case Name of
        None \<Rightarrow> (None, es)
      | Some Name' \<Rightarrow>
          if NameLength = 0 then (None, es)
          else (case entries_add_section es (snwprintf_S Name' NameLength) of
                  (i, es') \<Rightarrow> (Some i, es')))"

definition entries_AddKey ::
  "entries \<Rightarrow> nat option \<Rightarrow> string option \<Rightarrow> nat \<Rightarrow> string option \<Rightarrow> nat \<Rightarrow> entries" where
  "entries_AddKey es Section Name NameLength Data DataLength =
     (case (Section, Name, Data) of
        (Some i, Some Name', Some Data') \<Rightarrow>
          if NameLength = 0 \<or> DataLength = 0 then es
          else entries_add_key es i (snwprintf_S Name' NameLength) (snwprintf_S Data' DataLength)
      | _ \<Rightarrow> es)"

lemma load_step_section:
  assumes "IniCacheSkipWhitespace P = Inr (Some P1)" and "deref P1 = Inr c1"
    and "IniCacheGetSectionName (tl P1) = Inr (P2, N, n)"
  shows "ptr_measure (Some P2) < ptr_measure (Some P)"
proof -
  from assms(3) have "length P2 \<le> length (tl P1)" by (rule IniCacheGetSectionName_length)
  moreover from assms(2) have "length (tl P1) < length P1" by (cases P1) (auto simp: deref_def)
  ultimately show ?thesis
    using IniCacheSkipWhitespace_length [OF assms(1)] by (simp add: ptr_measure_def)
qed

lemma load_step_skip:
  "IniCacheSkipToNextSection P2 = Inr P3 \<Longrightarrow> ptr_measure P3 \<le> ptr_measure (Some P2)"
  using IniCacheSkipToNextSection_length [of P2] by (cases P3) (auto simp: ptr_measure_def)

lemma load_step_skip_strict:
  assumes "IniCacheSkipWhitespace P = Inr (Some P1)" and "deref P1 = Inr c1" and "c1 \<noteq> CHR ''[''"
    and "IniCacheSkipToNextSection P1 = Inr P2"
  shows "ptr_measure P2 < ptr_measure (Some P)"
proof (cases P2)
  case None
  then show ?thesis by (simp add: ptr_measure_def)
next
  case (Some Q)
  with assms have "length Q < length P1" by (auto dest: IniCacheSkipToNextSection_shorter)
  with Some IniCacheSkipWhitespace_length [OF assms(1)] show ?thesis by (simp add: ptr_measure_def)
qed

lemma load_step_key:
  assumes "IniCacheSkipWhitespace P = Inr (Some P1)"
    and "IniCacheGetKeyName P1 = Inr (P2, N, n)"
    and "IniCacheGetKeyValue P2 String = Inr (P3, D, d)"
  shows "ptr_measure P3 < ptr_measure (Some P)"
proof (cases P3)
  case None
  then show ?thesis by (simp add: ptr_measure_def)
next
  case (Some Q)
  from assms(2) have "length P2 \<le> length P1"
    using IniCacheGetKeyName_loop_length [of P1 None 0 P2 N n] by (simp add: IniCacheGetKeyName_def)
  moreover from assms(3) Some have "length Q < length P2"
    by (auto dest: IniCacheGetKeyValue_shorter)
  ultimately show ?thesis
    using Some IniCacheSkipWhitespace_length [OF assms(1)] by (simp add: ptr_measure_def)
qed

function load_entries :: "entries \<Rightarrow> nat option \<Rightarrow> string option \<Rightarrow> bool \<Rightarrow> fault + entries" where
  "load_entries es Section Ptr String =
     (case Ptr of
        None \<Rightarrow> Inr es
      | Some P \<Rightarrow>
          (case deref P of
             Inl e \<Rightarrow> Inl e
           | Inr c \<Rightarrow>
               if c = NUL then Inr es
               else
                 (case IniCacheSkipWhitespace P of
                    Inl e \<Rightarrow> Inl e
                  | Inr None \<Rightarrow> Inr es
                  | Inr (Some P1) \<Rightarrow>
                      (case deref P1 of
                         Inl e \<Rightarrow> Inl e
                       | Inr c1 \<Rightarrow>
                           if c1 = CHR ''['' then
                             (case IniCacheGetSectionName (tl P1) of
                                Inl e \<Rightarrow> Inl e
                              | Inr (P2, SectionName, SectionNameSize) \<Rightarrow>
                                  (case entries_AddSection es SectionName SectionNameSize of
                                     (None, es1) \<Rightarrow>
                                       (case IniCacheSkipToNextSection P2 of
                                          Inl e \<Rightarrow> Inl e
                                        | Inr P3 \<Rightarrow> load_entries es1 None P3 String)
                                   | (Some i, es1) \<Rightarrow> load_entries es1 (Some i) (Some P2) String))
                           else if Section = None then
                             (case IniCacheSkipToNextSection P1 of
                                Inl e \<Rightarrow> Inl e
                              | Inr P2 \<Rightarrow> load_entries es None P2 String)
                           else
                             (case IniCacheGetKeyName P1 of
                                Inl e \<Rightarrow> Inl e
                              | Inr (P2, KeyName, KeyNameSize) \<Rightarrow>
                                  (case IniCacheGetKeyValue P2 String of
                                     Inl e \<Rightarrow> Inl e
                                   | Inr (P3, KeyValue, KeyValueSize) \<Rightarrow>
                                       load_entries
                                         (entries_AddKey es Section KeyName KeyNameSize
                                            KeyValue KeyValueSize)
                                         Section P3 String))))))"
  by pat_completeness auto
termination
proof (relation "measure (\<lambda>(es, Section, Ptr, String). ptr_measure Ptr)")
  fix es es1 :: entries and Section :: "nat option" and Ptr and String :: bool
    and P P1 P2 :: string and c1 :: char and w x y N n P3
  assume "Ptr = Some P" "IniCacheSkipWhitespace P = Inr w" "w = Some P1" "deref P1 = Inr c1"
    "IniCacheGetSectionName (tl P1) = Inr x" "(P2, y) = x" "(N, n) = y"
    "IniCacheSkipToNextSection P2 = Inr P3"
  then have "ptr_measure (Some P2) < ptr_measure Ptr" "ptr_measure P3 \<le> ptr_measure (Some P2)"
    using load_step_section [of P P1 c1 P2 N n] load_step_skip [of P2 P3] by auto
  then show "((es1, None, P3, String), (es, Section, Ptr, String))
      \<in> measure (\<lambda>(es, Section, Ptr, String). ptr_measure Ptr)" by simp
next
  fix es es1 :: entries and Section :: "nat option" and Ptr and String :: bool
    and P P1 P2 :: string and c1 :: char and w x y N n and i :: nat
  assume "Ptr = Some P" "IniCacheSkipWhitespace P = Inr w" "w = Some P1" "deref P1 = Inr c1"
    "IniCacheGetSectionName (tl P1) = Inr x" "(P2, y) = x" "(N, n) = y"
  then have "ptr_measure (Some P2) < ptr_measure Ptr"
    using load_step_section [of P P1 c1 P2 N n] by auto
  then show "((es1, Some i, Some P2, String), (es, Section, Ptr, String))
      \<in> measure (\<lambda>(es, Section, Ptr, String). ptr_measure Ptr)" by simp
next
  fix es :: entries and Section :: "nat option" and Ptr and String :: bool
    and P P1 :: string and c1 :: char and w P2
  assume "Ptr = Some P" "IniCacheSkipWhitespace P = Inr w" "w = Some P1" "deref P1 = Inr c1"
    "c1 \<noteq> CHR ''[''" "IniCacheSkipToNextSection P1 = Inr P2"
  then have "ptr_measure P2 < ptr_measure Ptr"
    using load_step_skip_strict [of P P1 c1 P2] by auto
  then show "((es, None, P2, String), (es, Section, Ptr, String))
      \<in> measure (\<lambda>(es, Section, Ptr, String). ptr_measure Ptr)" by simp
next
  fix es :: entries and Section :: "nat option" and Ptr and String :: bool
    and P P1 P2 :: string and w x y N n x' y' P3 D d
  assume "Ptr = Some P" "IniCacheSkipWhitespace P = Inr w" "w = Some P1"
    "IniCacheGetKeyName P1 = Inr x" "(P2, y) = x" "(N, n) = y"
    "IniCacheGetKeyValue P2 String = Inr x'" "(P3, y') = x'" "(D, d) = y'"
  then have "ptr_measure P3 < ptr_measure Ptr"
    using load_step_key [of P P1 P2 N n String P3 D d] by auto
  then show "((entries_AddKey es Section N n D d, Section, P3, String), (es, Section, Ptr, String))
      \<in> measure (\<lambda>(es, Section, Ptr, String). ptr_measure Ptr)" by simp
qed simp

declare load_entries.simps [simp del]

definition section_at :: "(addr \<times> addr list) list \<Rightarrow> addr option \<Rightarrow> nat option \<Rightarrow> bool" where
  "section_at L Section cur \<longleftrightarrow>
     (case cur of None \<Rightarrow> Section = None | Some i \<Rightarrow> i < length L \<and> Section = Some (fst (L ! i)))"

subsection \<open>Entries that are read back as they are\<close>

text \<open>
  What the scanner needs of a name or a value to read it back from a line of the
  rendering: a section name is not empty, does not begin with white space and holds no
  \<^verbatim>\<open>]\<close>; a key name is not empty, holds no white space, \<^verbatim>\<open>=\<close> or \<^verbatim>\<open>;\<close> and does not begin
  with \<^verbatim>\<open>[\<close>; a value is not empty, does not begin with white space (nor with a quote in
  quoted mode) and holds no CR or \<^verbatim>\<open>;\<close>. Names are distinct when no two are equal for
  \<^verbatim>\<open>_wcsicmp\<close>. \<open>loaded_ok\<close> is the part of this that every load establishes,
  \<open>plain_entries\<close> the part that depends on the buffer.
\<close>

definition section_name_ok :: "string \<Rightarrow> bool" where
  "section_name_ok n \<longleftrightarrow>
     n \<noteq> [] \<and> \<not> isspace (hd n) \<and> list_all (\<lambda>c. c \<noteq> NUL \<and> c \<noteq> CHR '']'') n"

definition key_chars_ok :: "string \<Rightarrow> bool" where
  "key_chars_ok n \<longleftrightarrow>
     n \<noteq> [] \<and> list_all (\<lambda>c. c \<noteq> NUL \<and> \<not> isspace c \<and> c \<noteq> CHR ''='' \<and> c \<noteq> CHR '';'') n"

definition key_name_ok :: "string \<Rightarrow> bool" where
  "key_name_ok n \<longleftrightarrow> key_chars_ok n \<and> hd n \<noteq> CHR ''[''"

definition value_ok :: "bool \<Rightarrow> string \<Rightarrow> bool" where
  "value_ok String v \<longleftrightarrow>
     v \<noteq> [] \<and> \<not> isspace (hd v) \<and> \<not> (hd v = CHR 0x22 \<and> String)
     \<and> list_all (\<lambda>c. c \<noteq> NUL \<and> c \<noteq> CR \<and> c \<noteq> CHR '';'') v"

definition names_distinct :: "string list \<Rightarrow> bool" where
  "names_distinct ns \<longleftrightarrow> distinct (map (\<lambda>n. map towlower (c_str n)) ns)"

definition reloadable :: "bool \<Rightarrow> entries \<Rightarrow> bool" where
  "reloadable String es \<longleftrightarrow>
     names_distinct (map fst es)
     \<and> list_all (\<lambda>e. section_name_ok (fst e) \<and> names_distinct (map fst (snd e))
                     \<and> list_all (\<lambda>kv. key_name_ok (fst kv) \<and> value_ok String (snd kv)) (snd e)) es"

definition loaded_ok :: "bool \<Rightarrow> entries \<Rightarrow> bool" where
  "loaded_ok String es \<longleftrightarrow>
     names_distinct (map fst es)
     \<and> list_all (\<lambda>e. section_name_ok (fst e) \<and> names_distinct (map fst (snd e))
                     \<and> list_all (\<lambda>kv. key_chars_ok (fst kv) \<and> (String \<or> value_ok False (snd kv)))
                           (snd e)) es"

definition plain_entries :: "bool \<Rightarrow> entries \<Rightarrow> bool" where
  "plain_entries String es \<longleftrightarrow>
     list_all (\<lambda>e. list_all (\<lambda>kv. hd (fst kv) \<noteq> CHR ''['' \<and> (String \<longrightarrow> value_ok True (snd kv)))
                       (snd e)) es"

text \<open>
  A buffer with a quoted value, a blank line, and a section that is opened twice under
  names that differ in case.
\<close>

definition example_buffer :: string where
  "example_buffer =
     ''[A]'' @ CRLF @ ''x = '' @ [CHR 0x22] @ ''1 2'' @ [CHR 0x22] @ CRLF @ CRLF
     @ ''[B]'' @ CRLF @ ''y=2'' @ CRLF @ ''[a]'' @ CRLF @ ''z=3'' @ CRLF @ [NUL]"

text \<open>The list \<open>xs\<close> with \<open>x\<close> put in at position \<open>n\<close>.\<close>

definition insert_at :: "nat \<Rightarrow> 'a \<Rightarrow> 'a list \<Rightarrow> 'a list" where
  "insert_at n x xs = take n xs @ x # drop n xs"

section \<open>Basic facts\<close>

lemma bindF_simps [simp]: "bindF (Inl e) f = Inl e" "bindF (Inr x) f = f x"
  by (simp_all add: bindF_def)

lemma bindF_Inr_iff: "bindF m f = Inr y \<longleftrightarrow> (\<exists>x. m = Inr x \<and> f x = Inr y)"
  by (cases m) simp_all

lemma snwprintf_S_eq: "snwprintf_S Src n = wcsncpy Src n"
  by (simp add: snwprintf_S_def wcsncpy_def)

lemma get_key_Inr_iff:
  "get_key h p = Inr K \<longleftrightarrow> (\<exists>a. p = Some a \<and> a < length (Keys h) \<and> K = Keys h ! a)"
  by (auto simp: get_key_def split: option.splits)

lemma get_section_Inr_iff:
  "get_section h p = Inr S \<longleftrightarrow> (\<exists>a. p = Some a \<and> a < length (Sections h) \<and> S = Sections h ! a)"
  by (auto simp: get_section_def split: option.splits)

lemma get_cache_Inr_iff:
  "get_cache h p = Inr C \<longleftrightarrow> (\<exists>a. p = Some a \<and> a < length (Caches h) \<and> C = Caches h ! a)"
  by (auto simp: get_cache_def split: option.splits)

lemma RtlAllocateHeap_fields:
  "RtlAllocateHeap h = (ok, h1) \<Longrightarrow>
   Keys h1 = Keys h \<and> Sections h1 = Sections h \<and> Caches h1 = Caches h"
  by (auto simp: RtlAllocateHeap_def split: list.splits)

lemma example_heap_is_loaded:
  "IniCacheLoadFromMemory empty_heap
     (''[A]'' @ CRLF @ ''x=1'' @ CRLF @ ''[B]'' @ CRLF @ ''y=2'' @ CRLF @ ''z=3'' @ CRLF @ [NUL]) 25 False
   = Inr (STATUS_SUCCESS, Some 0, example_heap)"
  by code_simp

subsection \<open>Walking the key list\<close>

lemma IniCacheFindKey_loop_chain:
  "key_chain fuel h p = Inr ks \<Longrightarrow>
   IniCacheFindKey_loop fuel h p Name = Inr (matching_key h ks Name)"
proof (induction fuel h p arbitrary: ks rule: key_chain.induct)
  case (1 fuel h)
  then show ?case by (simp add: matching_key_def)
next
  case (2 h a)
  then show ?case by simp
next
  case (3 fuel h a)
  from "3.prems" obtain as where a: "a < length (Keys h)"
    and c: "key_chain fuel h (Key_Next (Keys h ! a)) = Inr as" and ks: "ks = a # as"
    by (auto simp: bindF_Inr_iff get_key_Inr_iff)
  from a have g: "get_key h (Some a) = Inr (Keys h ! a)" by (simp add: get_key_def)
  from "3.IH" [OF g c] g ks show ?case by (simp add: matching_key_def)
qed

lemma IniCacheFindKey_section_keys:
  "section_keys h s = Inr ks \<Longrightarrow>
   IniCacheFindKey h (Some s) Name = Inr (matching_key h ks Name)"
  by (auto simp: section_keys_def IniCacheFindKey_def bindF_Inr_iff IniCacheFindKey_loop_chain)

lemma key_chain_valid: "key_chain fuel h p = Inr ks \<Longrightarrow> k \<in> set ks \<Longrightarrow> k < length (Keys h)"
proof (induction fuel h p arbitrary: ks rule: key_chain.induct)
  case (3 fuel h a)
  from "3.prems" obtain as where a: "a < length (Keys h)"
    and c: "key_chain fuel h (Key_Next (Keys h ! a)) = Inr as" and ks: "ks = a # as"
    by (auto simp: bindF_Inr_iff get_key_Inr_iff)
  from a have g: "get_key h (Some a) = Inr (Keys h ! a)" by (simp add: get_key_def)
  from "3.IH" [OF g c] a ks "3.prems" show ?case by auto
qed simp_all

lemma matching_key_Some:
  "matching_key h ks Name = Some k \<Longrightarrow> k \<in> set ks \<and> wcsicmp (Key_Name (Keys h ! k)) Name = 0"
  by (auto simp: matching_key_def find_Some_iff)

lemma key_chain_Key_Data:
  "key_chain fuel (h\<lparr>Keys := (Keys h)[k := (Keys h ! k)\<lparr>Key_Data := d\<rparr>], Allocs := al\<rparr>) p
   = key_chain fuel h p"
proof (induction fuel h p rule: key_chain.induct)
  case (3 fuel h a)
  show ?case
  proof (cases "a < length (Keys h)")
    case True
    then have g: "get_key h (Some a) = Inr (Keys h ! a)" by (simp add: get_key_def)
    from "3.IH" [OF g] True show ?thesis
      by (cases "a = k") (simp_all add: get_key_def)
  next
    case False
    then show ?thesis by (simp add: get_key_def)
  qed
qed simp_all

subsection \<open>Failing calls\<close>

lemma IniCacheAddKeyAorW_failure:
  assumes "IniCacheAddKeyAorW h Section AnchorKey InsertionType Name NameLength Data DataLength
             IsUnicode = Inr (None, h')"
  shows "Keys h' = Keys h \<and> Sections h' = Sections h \<and> Caches h' = Caches h"
  using assms
  by (auto simp: IniCacheAddKeyAorW_def Let_def bindF_Inr_iff
      split: option.splits if_splits prod.splits bool.splits
      dest!: RtlAllocateHeap_fields)

subsection \<open>Allocation and updates of a value\<close>

lemma after_allocs_fields [simp]:
  "Keys (after_allocs n h) = Keys h" "Sections (after_allocs n h) = Sections h"
  "Caches (after_allocs n h) = Caches h" "Allocs (after_allocs n h) = drop n (Allocs h)"
  by (simp_all add: after_allocs_def)

lemma after_allocs_0 [simp]: "after_allocs 0 h = h"
  by (simp add: after_allocs_def)

lemma after_allocs_after_allocs [simp]: "after_allocs m (after_allocs n h) = after_allocs (n + m) h"
  by (simp add: after_allocs_def add.commute)

lemma RtlAllocateHeap_succeeds:
  "allocs_succeed (Suc n) h \<Longrightarrow>
   RtlAllocateHeap h = (True, after_allocs 1 h) \<and> allocs_succeed n (after_allocs 1 h)"
  by (cases "Allocs h") (auto simp: allocs_succeed_def RtlAllocateHeap_def after_allocs_def drop_Suc)

lemma key_chain_cong: "Keys h' = Keys h \<Longrightarrow> key_chain fuel h' p = key_chain fuel h p"
proof (induction fuel h p rule: key_chain.induct)
  case (3 fuel h a)
  show ?case
  proof (cases "a < length (Keys h)")
    case True
    then have g: "get_key h (Some a) = Inr (Keys h ! a)" by (simp add: get_key_def)
    from "3.IH" [OF g "3.prems"] "3.prems" True show ?thesis by (simp add: get_key_def)
  next
    case False
    with "3.prems" show ?thesis by (simp add: get_key_def)
  qed
qed simp_all

lemma section_keys_cong:
  "Keys h' = Keys h \<Longrightarrow> Sections h' = Sections h \<Longrightarrow> section_keys h' s = section_keys h s"
  by (simp add: section_keys_def get_section_def key_chain_cong [of h' h] cong: bindF_cong)

lemma matching_key_cong: "Keys h' = Keys h \<Longrightarrow> matching_key h' ks N = matching_key h ks N"
  by (simp add: matching_key_def)

lemma section_keys_after_allocs [simp]: "section_keys (after_allocs n h) s = section_keys h s"
  by (rule section_keys_cong) simp_all

lemma matching_key_after_allocs [simp]: "matching_key (after_allocs n h) ks N = matching_key h ks N"
  by (rule matching_key_cong) simp

lemma key_chain_with_key_data: "key_chain fuel (with_key_data h k d) p = key_chain fuel h p"
  using key_chain_Key_Data [where h = h and k = k and d = d and al = "Allocs h" and fuel = fuel and p = p]
  by (simp add: with_key_data_def)

lemma section_keys_with_key_data: "section_keys (with_key_data h k d) s = section_keys h s"
proof -
  have "Sections (with_key_data h k d) = Sections h" "length (Keys (with_key_data h k d)) = length (Keys h)"
    by (simp_all add: with_key_data_def)
  then show ?thesis
    by (simp add: section_keys_def get_section_def key_chain_with_key_data cong: bindF_cong)
qed

lemma wcsncpy_wcslen: "wcsncpy s (wcslen s) = c_str s"
proof -
  have "take (length (takeWhile (\<lambda>c. c \<noteq> NUL) s)) s = takeWhile (\<lambda>c. c \<noteq> NUL) s"
    by (simp add: takeWhile_eq_take [symmetric])
  then show ?thesis by (simp add: wcsncpy_def wcslen_def c_str_def)
qed

lemma IniCacheAddKeyAorW_existing:
  assumes sk: "section_keys h s = Inr ks"
    and m: "matching_key h ks (wcsncpy Name NameLength) = Some k"
    and len: "0 < NameLength" "0 < DataLength"
    and al: "allocs_succeed 2 h"
  shows "IniCacheAddKeyAorW h (Some s) AnchorKey InsertionType (Some Name) NameLength
           (Some Data) DataLength IsUnicode
         = Inr (Some k, with_key_data (after_allocs 2 h) k (wcsncpy Data DataLength))"
proof -
  from al have a1: "RtlAllocateHeap h = (True, after_allocs 1 h)"
    and al1: "allocs_succeed 1 (after_allocs 1 h)"
    using RtlAllocateHeap_succeeds [of 1 h] by (simp_all add: numeral_2_eq_2)
  from al1 have a2: "RtlAllocateHeap (after_allocs 1 h) = (True, after_allocs 2 h)"
    using RtlAllocateHeap_succeeds [of 0 "after_allocs 1 h"] by (simp add: numeral_2_eq_2)
  from sk have sk1: "section_keys (after_allocs 1 h) s = Inr ks"
    by simp
  from m have m1: "matching_key (after_allocs 1 h) ks (wcsncpy Name NameLength) = Some k"
    by simp
  from m have "k \<in> set ks" by (simp add: matching_key_Some)
  with sk have kv: "k < length (Keys h)"
    by (auto simp: section_keys_def bindF_Inr_iff dest: key_chain_valid)
  have f: "IniCacheFindKey (after_allocs 1 h) (Some s) (wcsncpy Name NameLength) = Inr (Some k)"
    using IniCacheFindKey_section_keys [OF sk1] m1 by simp
  show ?thesis
    using len a1 a2 f kv
    by (simp add: IniCacheAddKeyAorW_def snwprintf_S_eq set_key_def with_key_data_def)
qed

subsection \<open>Where a new key is linked\<close>

lemma set_key_fields:
  "set_key h p f = Inr h' \<Longrightarrow>
   Sections h' = Sections h \<and> Caches h' = Caches h \<and> length (Keys h') = length (Keys h)"
  by (auto simp: set_key_def split: option.splits if_splits)




lemma get_section_Sections_cong:
  "Sections h' = Sections h \<Longrightarrow> get_section h' p = get_section h p"
  by (simp add: get_section_def split: option.splits)

lemma IniCacheAddKeyAorW_unfold:
  assumes "RtlAllocateHeap h = (b1, h1)" "RtlAllocateHeap h1 = (b2, h2)"
    "RtlAllocateHeap h2 = (b3, h3)"
  shows "IniCacheAddKeyAorW h Section A T (Some N) nl (Some D) dl u =
     (if Section = None \<or> nl = 0 \<or> dl = 0 then Inr (None, h)
      else if \<not> b1 then Inr (None, h1)
      else
        bindF (IniCacheFindKey h1 Section (wcsncpy N nl)) (\<lambda>Key.
          case Key of
            Some K \<Rightarrow>
              if \<not> b2 then Inr (None, h2)
              else
                bindF (set_key h2 (Some K) (\<lambda>K. K\<lparr>Key_Data := wcsncpy D dl\<rparr>)) (\<lambda>h3.
                Inr (Some K, h3))
          | None \<Rightarrow>
              if \<not> b2 then Inr (None, h2)
              else if \<not> b3 then Inr (None, h3)
              else
                bindF (insert_key_into_section
                         (h3\<lparr>Keys := Keys h3 @
                            [\<lparr>Key_Name = wcsncpy N nl, Key_Data = wcsncpy D dl,
                              Key_Next = None, Key_Prev = None\<rparr>]\<rparr>)
                         Section A T (length (Keys h3)))
                  (\<lambda>h5. Inr (Some (length (Keys h3)), h5))))"
  using assms
  by (cases b1; cases b2; cases b3)
     (simp_all add: IniCacheAddKeyAorW_def Let_def snwprintf_S_eq cong: option.case_cong)

lemma IniCacheAddKeyAorW_null_args:
  "Name = None \<or> Data = None \<Longrightarrow>
   IniCacheAddKeyAorW h Section A T Name nl Data dl u = Inr (None, h)"
  by (auto simp: IniCacheAddKeyAorW_def split: option.splits)


lemma insert_key_into_section_foreign:
  assumes "get_section h Section = Inr S" and "FirstKey S \<noteq> None"
    and "AnchorKey \<noteq> None"
    and "(T = INSERT_BEFORE \<and> AnchorKey \<noteq> FirstKey S) \<or> (T = INSERT_AFTER \<and> AnchorKey \<noteq> LastKey S)"
    and "insert_key_into_section h Section AnchorKey T K = Inr h'"
  shows "Sections h' = Sections h"
  using assms
  by (auto simp: insert_key_into_section_def bindF_Inr_iff dest!: set_key_fields)

lemma IniCacheAddKeyAorW_foreign:
  assumes g: "get_section h Section = Inr S" and f: "FirstKey S \<noteq> None"
    and a: "AnchorKey \<noteq> None"
    and t: "(T = INSERT_BEFORE \<and> AnchorKey \<noteq> FirstKey S) \<or> (T = INSERT_AFTER \<and> AnchorKey \<noteq> LastKey S)"
    and r: "IniCacheAddKeyAorW h Section AnchorKey T Name NameLength Data DataLength IsUnicode = Inr (K, h')"
  shows "Sections h' = Sections h"
proof -
  obtain b1 h1 where a1: "RtlAllocateHeap h = (b1, h1)" by fastforce
  obtain b2 h2 where a2: "RtlAllocateHeap h1 = (b2, h2)" by fastforce
  obtain b3 h3 where a3: "RtlAllocateHeap h2 = (b3, h3)" by fastforce
  from a1 a2 a3 have s: "Sections h1 = Sections h" "Sections h2 = Sections h" "Sections h3 = Sections h"
    by (auto dest!: RtlAllocateHeap_fields)
  have *: "Sections h5 = Sections h"
    if "insert_key_into_section (h3\<lparr>Keys := ks\<rparr>) Section AnchorKey T K' = Inr h5" for ks K' h5
  proof -
    from s have s': "Sections (h3\<lparr>Keys := ks\<rparr>) = Sections h" by simp
    with g have "get_section (h3\<lparr>Keys := ks\<rparr>) Section = Inr S"
      by (simp add: get_section_Sections_cong [of "h3\<lparr>Keys := ks\<rparr>" h])
    from insert_key_into_section_foreign [OF this f a t that] s' show ?thesis by simp
  qed
  show ?thesis
  proof (cases "Name = None \<or> Data = None")
    case True
    with r show ?thesis by (simp add: IniCacheAddKeyAorW_null_args)
  next
    case False
    then obtain N D where nd: "Name = Some N" "Data = Some D" by auto
    from r consider (fail) "h' = h \<or> h' = h1 \<or> h' = h2 \<or> h' = h3"
      | (upd) K' f where "set_key h2 (Some K') f = Inr h'"
      | (ins) K' ks where "insert_key_into_section (h3\<lparr>Keys := ks\<rparr>) Section AnchorKey T K' = Inr h'"
      unfolding nd IniCacheAddKeyAorW_unfold [OF a1 a2 a3]
      by (auto simp: bindF_Inr_iff split: if_splits option.splits)
    then show ?thesis
    proof cases
      case fail
      with s show ?thesis by auto
    next
      case upd
      with s show ?thesis by (auto dest!: set_key_fields)
    next
      case ins
      then show ?thesis by (rule *)
    qed
  qed
qed

subsection \<open>Linked lists in the heap\<close>

lemma path_None [simp]: "path nxt n None as \<longleftrightarrow> as = []"
  by (cases as) auto

lemma path_unique: "path nxt n p as \<Longrightarrow> path nxt n p bs \<Longrightarrow> as = bs"
proof (induction as arbitrary: p bs)
  case Nil
  then show ?case by simp
next
  case (Cons a as)
  then show ?case by (cases bs) auto
qed

lemma path_suffix: "path nxt n p (as @ b # bs) \<Longrightarrow> path nxt n (Some b) (b # bs)"
  by (induction as arbitrary: p) auto

lemma path_valid: "path nxt n p as \<Longrightarrow> a \<in> set as \<Longrightarrow> a < n"
  by (induction as arbitrary: p) auto

lemma path_distinct: "path nxt n p as \<Longrightarrow> distinct as"
proof (induction as arbitrary: p)
  case Nil
  then show ?case by simp
next
  case (Cons a as)
  have "a \<notin> set as"
  proof
    assume "a \<in> set as"
    then obtain xs ys where as: "as = xs @ a # ys" by (auto simp: in_set_conv_decomp)
    from Cons.prems have p1: "path nxt n (nxt a) as" by simp
    with as have "path nxt n (Some a) (a # ys)" by (auto dest: path_suffix)
    then have "path nxt n (nxt a) ys" by simp
    with p1 have "as = ys" by (rule path_unique)
    with as show False by simp
  qed
  with Cons show ?case by auto
qed

lemma path_length: "path nxt n p as \<Longrightarrow> length as \<le> n"
proof -
  assume p: "path nxt n p as"
  then have "distinct as" by (rule path_distinct)
  then have "length as = card (set as)" by (simp add: distinct_card)
  also from p have "set as \<subseteq> {..<n}" by (auto dest: path_valid)
  then have "card (set as) \<le> card {..<n}" by (intro card_mono) auto
  finally show ?thesis by simp
qed

lemma path_frame:
  "path nxt n p as \<Longrightarrow> (\<And>a. a \<in> set as \<Longrightarrow> nxt' a = nxt a) \<Longrightarrow> n \<le> n' \<Longrightarrow> path nxt' n' p as"
  by (induction as arbitrary: p) auto

lemma path_snoc:
  assumes "path nxt n p as" and "as \<noteq> []" and "b \<notin> set as" and "b < n'" and "n \<le> n'"
    and "nxt' (last as) = Some b" and "nxt' b = None"
    and "\<And>a. a \<in> set (butlast as) \<Longrightarrow> nxt' a = nxt a"
  shows "path nxt' n' p (as @ [b])"
  using assms
proof (induction as arbitrary: p)
  case Nil
  then show ?case by simp
next
  case (Cons a as)
  show ?case
  proof (cases "as = []")
    case True
    with Cons.prems show ?thesis by auto
  next
    case False
    with Cons.prems have "path nxt' n' (nxt a) (as @ [b])"
      by (intro Cons.IH) auto
    moreover from False Cons.prems have "nxt' a = nxt a" by auto
    ultimately show ?thesis using Cons.prems by auto
  qed
qed

lemma key_chain_path:
  "path (\<lambda>a. Key_Next (Keys h ! a)) (length (Keys h)) p ks \<Longrightarrow> length ks \<le> fuel \<Longrightarrow>
   key_chain fuel h p = Inr ks"
proof (induction ks arbitrary: p fuel)
  case Nil
  then show ?case by simp
next
  case (Cons a as)
  then obtain f where "fuel = Suc f" by (cases fuel) auto
  with Cons show ?case by (auto simp: get_key_def)
qed

lemma section_chain_path:
  "path (\<lambda>a. Section_Next (Sections h ! a)) (length (Sections h)) p ss \<Longrightarrow> length ss \<le> fuel \<Longrightarrow>
   section_chain fuel h p = Inr ss"
proof (induction ss arbitrary: p fuel)
  case Nil
  then show ?case by simp
next
  case (Cons a as)
  then obtain f where "fuel = Suc f" by (cases fuel) auto
  with Cons show ?case by (auto simp: get_section_def)
qed

lemma key_path_chain: "key_path h p ks \<Longrightarrow> key_chain (Suc (length (Keys h))) h p = Inr ks"
  unfolding key_path_def by (rule key_chain_path) (auto dest: path_length)

lemma section_path_chain:
  "section_path h p ss \<Longrightarrow> section_chain (Suc (length (Sections h))) h p = Inr ss"
  unfolding section_path_def by (rule section_chain_path) (auto dest: path_length)

lemma section_ok_keys: "section_ok h (s, ks) \<Longrightarrow> section_keys h s = Inr ks"
  by (simp add: section_ok_def section_keys_def get_section_def key_path_chain)

lemma cache_ok_sections: "cache_ok h c L \<Longrightarrow> cache_sections h (Some c) = Inr (map fst L)"
  by (simp add: cache_ok_def cache_sections_def get_cache_def section_path_chain)

lemma sections_entries_ok:
  "list_all (section_ok h) L \<Longrightarrow> sections_entries h (map fst L) = Inr (entries_of h L)"
proof (induction L)
  case Nil
  then show ?case by (simp add: entries_of_def)
next
  case (Cons sk L)
  obtain s ks where sk: "sk = (s, ks)" by (cases sk)
  with Cons.prems have "section_keys h s = Inr ks" by (simp add: section_ok_keys)
  with Cons sk show ?case by (simp add: section_entries_def entries_of_def)
qed

lemma cache_ok_entries: "cache_ok h c L \<Longrightarrow> cache_entries h (Some c) = Inr (entries_of h L)"
  by (simp add: cache_entries_def cache_ok_sections) (simp add: cache_ok_def sections_entries_ok)

lemma example_heap_ok: "cache_ok example_heap 0 [(0, [0]), (1, [1, 2])]"
  by code_simp

subsection \<open>Finding and adding sections\<close>

lemma IniCacheFindSection_loop_chain:
  "section_chain fuel h p = Inr ss \<Longrightarrow>
   IniCacheFindSection_loop fuel h p Name = Inr (matching_section h ss Name)"
proof (induction fuel h p arbitrary: ss rule: section_chain.induct)
  case (1 fuel h)
  then show ?case by (simp add: matching_section_def)
next
  case (2 h a)
  then show ?case by simp
next
  case (3 fuel h a)
  from "3.prems" obtain as where a: "a < length (Sections h)"
    and c: "section_chain fuel h (Section_Next (Sections h ! a)) = Inr as" and ss: "ss = a # as"
    by (auto simp: bindF_Inr_iff get_section_Inr_iff)
  from a have g: "get_section h (Some a) = Inr (Sections h ! a)" by (simp add: get_section_def)
  from "3.IH" [OF g c] g ss show ?case by (simp add: matching_section_def)
qed

lemma IniCacheFindSection_ok:
  "cache_ok h c L \<Longrightarrow>
   IniCacheFindSection h (Some c) Name = Inr (matching_section h (map fst L) Name)"
  using cache_ok_sections [of h c L]
  by (auto simp: IniCacheFindSection_def cache_sections_def bindF_Inr_iff
      IniCacheFindSection_loop_chain)

lemma matching_section_Some:
  "matching_section h ss Name = Some s \<Longrightarrow>
   s \<in> set ss \<and> wcsicmp (Section_Name (Sections h ! s)) Name = 0"
  by (auto simp: matching_section_def find_Some_iff)

lemma butlast_not_last: "distinct xs \<Longrightarrow> a \<in> set (butlast xs) \<Longrightarrow> a \<noteq> last xs"
  by (cases xs rule: rev_cases) auto

lemma get_after_allocs [simp]:
  "get_key (after_allocs n h) p = get_key h p"
  "get_section (after_allocs n h) q = get_section h q"
  "get_cache (after_allocs n h) r = get_cache h r"
  by (simp_all add: get_key_def get_section_def get_cache_def split: option.splits)

lemma IniCacheFindSection_after_allocs [simp]:
  "IniCacheFindSection (after_allocs n h) Cache Name = IniCacheFindSection h Cache Name"
proof -
  have "IniCacheFindSection_loop fuel (after_allocs n h) p Name = IniCacheFindSection_loop fuel h p Name"
    for fuel p
    by (induction fuel h p Name rule: IniCacheFindSection_loop.induct)
       (simp_all cong: sum.case_cong if_cong)
  then show ?thesis by (simp add: IniCacheFindSection_def)
qed

lemma cache_ok_after_allocs [simp]: "cache_ok (after_allocs n h) c L = cache_ok h c L"
  by (simp add: cache_ok_def section_ok_def section_path_def key_path_def list_all_iff)

lemma entries_of_cong:
  "Keys h' = Keys h \<Longrightarrow> Sections h' = Sections h \<Longrightarrow> entries_of h' L = entries_of h L"
  by (simp add: entries_of_def)

lemma IniCacheAddSectionAorW_existing:
  assumes ok: "cache_ok h c L"
    and m: "matching_section h (map fst L) (wcsncpy Name NameLength) = Some s"
    and len: "0 < NameLength"
    and al: "allocs_succeed 1 h"
  shows "IniCacheAddSectionAorW h (Some c) (Some Name) NameLength IsUnicode
         = Inr (Some s, after_allocs 1 h)"
proof -
  from al have a1: "RtlAllocateHeap h = (True, after_allocs 1 h)"
    using RtlAllocateHeap_succeeds [of 0 h] by simp
  from ok m show ?thesis
    using len a1 by (simp add: IniCacheAddSectionAorW_def snwprintf_S_eq IniCacheFindSection_ok)
qed

lemma last_of_simps [simp]: "last_of [] = None" "last_of (as @ [a]) = Some a"
  by (simp_all add: last_of_def)

lemma IniCacheAddSectionAorW_new:
  assumes ok: "cache_ok h c L"
    and m: "matching_section h (map fst L) (wcsncpy Name NameLength) = None"
    and len: "0 < NameLength"
    and al: "allocs_succeed 2 h"
  shows "\<exists>h'. IniCacheAddSectionAorW h (Some c) (Some Name) NameLength IsUnicode
                = Inr (Some (length (Sections h)), h')
           \<and> cache_ok h' c (L @ [(length (Sections h), [])])
           \<and> entries_of h' (L @ [(length (Sections h), [])])
               = entries_of h L @ [(c_str (wcsncpy Name NameLength), [])]
           \<and> Keys h' = Keys h \<and> Allocs h' = drop 2 (Allocs h)
           \<and> length (Sections h') = Suc (length (Sections h))"
proof -
  let ?S = "length (Sections h)"
  let ?N = "wcsncpy Name NameLength"
  let ?new = "\<lparr>Section_Name = ?N, FirstKey = None, LastKey = None,
                 Section_Next = None, Section_Prev = None\<rparr>"
  let ?C = "Caches h ! c"
  let ?ss = "map fst L"
  from al have a1: "RtlAllocateHeap h = (True, after_allocs 1 h)"
    and al1: "allocs_succeed 1 (after_allocs 1 h)"
    using RtlAllocateHeap_succeeds [of 1 h] by (simp_all add: numeral_2_eq_2)
  from al1 have a2: "RtlAllocateHeap (after_allocs 1 h) = (True, after_allocs 2 h)"
    using RtlAllocateHeap_succeeds [of 0 "after_allocs 1 h"] by (simp add: numeral_2_eq_2)
  from ok have c: "c < length (Caches h)"
    and sp: "path (\<lambda>a. Section_Next (Sections h ! a)) ?S (FirstSection ?C) ?ss"
    and lst: "LastSection ?C = last_of ?ss"
    and secs: "list_all (section_ok h) L"
    and dist: "distinct (concat (map snd L))"
    by (simp_all add: cache_ok_def section_path_def)
  from sp have valid: "\<And>a. a \<in> set ?ss \<Longrightarrow> a < ?S" by (rule path_valid)
  let ?h3 = "(after_allocs 2 h)\<lparr>Sections := Sections h @ [?new]\<rparr>"
  have f: "IniCacheFindSection (after_allocs 1 h) (Some c) ?N = Inr None"
    using ok m by (simp add: IniCacheFindSection_ok)
  have gc: "get_cache ?h3 (Some c) = Inr ?C" using c by (simp add: get_cache_def)
  show ?thesis
  proof (cases "L = []")
    case True
    with sp have first: "FirstSection ?C = None" by simp
    let ?h4 = "?h3\<lparr>Caches := (Caches h)[c := ?C\<lparr>FirstSection := Some ?S, LastSection := Some ?S\<rparr>]\<rparr>"
    have r: "IniCacheAddSectionAorW h (Some c) (Some Name) NameLength IsUnicode = Inr (Some ?S, ?h4)"
      using len a1 a2 f gc first c
      by (simp add: IniCacheAddSectionAorW_def snwprintf_S_eq Let_def set_cache_def)
    have "cache_ok ?h4 c [(?S, [])]"
      using c by (simp add: cache_ok_def section_path_def section_ok_def key_path_def last_of_def)
    moreover have "entries_of ?h4 [(?S, [])] = [(c_str ?N, [])]"
      by (simp add: entries_of_def)
    ultimately show ?thesis using r True by (auto simp: entries_of_def)
  next
    case False
    with sp obtain f0 where first: "FirstSection ?C = Some f0" by (cases L) auto
    from False have lne: "?ss \<noteq> []" by simp
    let ?l = "last ?ss"
    from lst lne have last: "LastSection ?C = Some ?l" by (simp add: last_of_def)
    from lne have lin: "?l \<in> set ?ss" by (rule last_in_set)
    then have lv: "?l < ?S" by (rule valid)
    define secs6 where "secs6 = (Sections h @ [?new])[?l := (Sections h ! ?l)\<lparr>Section_Next := Some ?S\<rparr>,
                     ?S := ?new\<lparr>Section_Prev := Some ?l\<rparr>]"
    let ?h6 = "(after_allocs 2 h)\<lparr>Sections := secs6,
                 Caches := (Caches h)[c := ?C\<lparr>LastSection := Some ?S\<rparr>]\<rparr>"
    have r: "IniCacheAddSectionAorW h (Some c) (Some Name) NameLength IsUnicode = Inr (Some ?S, ?h6)"
      using len a1 a2 f gc first last c lv
      by (simp add: IniCacheAddSectionAorW_def snwprintf_S_eq Let_def set_cache_def set_section_def
          nth_append secs6_def)
    have len6: "length secs6 = Suc ?S" by (simp add: secs6_def)
    have old: "secs6 ! a = Sections h ! a" if "a < ?S" "a \<noteq> ?l" for a
      using that by (simp add: nth_append secs6_def)
    have oldl: "secs6 ! ?l = (Sections h ! ?l)\<lparr>Section_Next := Some ?S\<rparr>"
      using lv by (simp add: nth_append secs6_def)
    have newS: "secs6 ! ?S = ?new\<lparr>Section_Prev := Some ?l\<rparr>"
      using lv by (simp add: secs6_def)
    have sp6: "path (\<lambda>a. Section_Next (secs6 ! a)) (Suc ?S) (FirstSection ?C) (?ss @ [?S])"
    proof (rule path_snoc [OF sp lne])
      show "?S \<notin> set ?ss" using valid by auto
      show "Section_Next (secs6 ! ?l) = Some ?S" using oldl by simp
      show "Section_Next (secs6 ! ?S) = None" using newS by simp
      fix a assume "a \<in> set (butlast ?ss)"
      moreover from sp have "distinct ?ss" by (rule path_distinct)
      ultimately have "a \<noteq> ?l" "a \<in> set ?ss"
        by (auto dest: butlast_not_last in_set_butlastD)
      with old valid show "Section_Next (secs6 ! a) = Section_Next (Sections h ! a)" by simp
    qed simp_all
    have so: "section_ok ?h6 sk" if "sk \<in> set L" for sk
    proof -
      obtain s ks where sk: "sk = (s, ks)" by (cases sk)
      with that secs have o: "section_ok h (s, ks)" by (auto simp: list_all_iff)
      from that sk have "s \<in> set ?ss" by force
      then have sv: "s < ?S" by (rule valid)
      have "FirstKey (secs6 ! s) = FirstKey (Sections h ! s) \<and> LastKey (secs6 ! s) = LastKey (Sections h ! s)"
        using sv old [of s] oldl by (cases "s = ?l") simp_all
      with o sv sk len6 show ?thesis by (simp add: section_ok_def key_path_def)
    qed
    have "cache_ok ?h6 c (L @ [(?S, [])])"
      using c sp6 so dist newS len6
      by (simp add: cache_ok_def section_path_def list_all_iff section_ok_def key_path_def)
    moreover have "entries_of ?h6 (L @ [(?S, [])]) = entries_of h L @ [(c_str ?N, [])]"
    proof -
      have "Section_Name (secs6 ! s) = Section_Name (Sections h ! s)" if "(s, ks) \<in> set L" for s ks
      proof -
        from that have "s \<in> set ?ss" by force
        from valid [OF this] old [of s] oldl show ?thesis by (cases "s = ?l") simp_all
      qed
      then have "entries_of ?h6 L = entries_of h L"
        by (auto simp: entries_of_def)
      then show ?thesis using newS by (simp add: entries_of_def)
    qed
    ultimately show ?thesis using r len6 by auto
  qed
qed

lemma first_index_Some: "first_index P xs = Some i \<Longrightarrow> i < length xs \<and> P (xs ! i)"
  by (induction xs arbitrary: i) (auto split: if_splits)

lemma first_index_None: "first_index P xs = None \<longleftrightarrow> (\<forall>x\<in>set xs. \<not> P x)"
  by (induction xs) auto

lemma find_first_index: "find P xs = map_option (\<lambda>i. xs ! i) (first_index P xs)"
  by (induction xs) (auto simp: option.map_comp comp_def)

lemma first_index_map: "first_index P (map f xs) = first_index (\<lambda>x. P (f x)) xs"
  by (induction xs) auto

lemma first_index_append:
  "first_index P (xs @ ys) =
     (case first_index P xs of Some i \<Rightarrow> Some i
      | None \<Rightarrow> map_option (\<lambda>i. length xs + i) (first_index P ys))"
proof (induction xs)
  case Nil
  show ?case by (cases "first_index P ys") simp_all
next
  case (Cons a xs)
  then show ?case
    by (cases "first_index P xs"; cases "first_index P ys") simp_all
qed

lemma entries_of_after_allocs [simp]: "entries_of (after_allocs n h) L = entries_of h L"
  by (simp add: entries_of_def)

lemma c_str_idem [simp]: "c_str (c_str s) = c_str s"
  by (simp add: c_str_def)

lemma wcsicmp_c_str [simp]: "wcsicmp (c_str a) b = wcsicmp a b" "wcsicmp a (c_str b) = wcsicmp a b"
  by (simp_all add: wcsicmp_def)

lemma wcsicmp_trans: "wcsicmp a b = 0 \<Longrightarrow> wcsicmp a c = wcsicmp b c"
  by (simp add: wcsicmp_def split: if_splits)

lemma wcsicmp_sym: "wcsicmp a b = wcsicmp b a"
  by (auto simp: wcsicmp_def)

lemma wcsncpy_c_str [simp]: "c_str (wcsncpy s n) = wcsncpy s n"
  by (simp add: wcsncpy_def)

lemma matching_section_entries:
  "matching_section h (map fst L) Name
   = map_option (\<lambda>i. fst (L ! i)) (first_index (\<lambda>e. wcsicmp (fst e) Name = 0) (entries_of h L))"
proof -
  have "first_index (\<lambda>e. wcsicmp (fst e) Name = 0) (entries_of h L)
      = first_index (\<lambda>s. wcsicmp (Section_Name (Sections h ! s)) Name = 0) (map fst L)"
    by (simp add: entries_of_def first_index_map case_prod_beta)
  moreover have "map_option (\<lambda>i. map fst L ! i) (first_index P (map fst L))
      = map_option (\<lambda>i. fst (L ! i)) (first_index P (map fst L))" for P
    by (cases "first_index P (map fst L)") (auto dest: first_index_Some)
  ultimately show ?thesis by (simp add: matching_section_def find_first_index)
qed

lemma matching_key_entries:
  "matching_key h ks Name
   = map_option (\<lambda>j. ks ! j)
       (first_index (\<lambda>kv. wcsicmp (fst kv) Name = 0)
          (map (\<lambda>k. (c_str (Key_Name (Keys h ! k)), c_str (Key_Data (Keys h ! k)))) ks))"
  by (simp add: matching_key_def find_first_index first_index_map)

lemma allocs_succeed_mono: "allocs_succeed n h \<Longrightarrow> m \<le> n \<Longrightarrow> allocs_succeed m h"
  by (auto simp: allocs_succeed_def list_all_iff dest: set_take_subset_set_take [THEN subsetD])

subsection \<open>The two passes of the serializer\<close>

lemma entries_of_Cons:
  "entries_of h ((s, ks) # L)
   = (c_str (Section_Name (Sections h ! s)), map (key_entry h) ks) # entries_of h L"
  by (simp add: entries_of_def key_entry_def)

lemma entries_of_Nil [simp]: "entries_of h [] = []" "entries_of h L = [] \<longleftrightarrow> L = []"
  by (simp_all add: entries_of_def)

lemma render_entries_Cons:
  "render_entries (e # es) = render_section e @ (if es = [] then [] else CRLF @ render_entries es)"
  by (cases es) simp_all

lemma fill_keys_path:
  "path (\<lambda>a. Key_Next (Keys h ! a)) (length (Keys h)) p ks \<Longrightarrow> length ks \<le> fuel \<Longrightarrow>
   fill_keys fuel h p Buffer = Inr (Buffer @ concat (map (\<lambda>k. render_key (key_entry h k)) ks))"
proof (induction ks arbitrary: p fuel Buffer)
  case Nil
  then show ?case by simp
next
  case (Cons a as)
  then obtain f where "fuel = Suc f" by (cases fuel) auto
  with Cons show ?case by (auto simp: get_key_def render_key_def key_entry_def)
qed

lemma BufferSize_keys_path:
  "path (\<lambda>a. Key_Next (Keys h ! a)) (length (Keys h)) p ks \<Longrightarrow> length ks \<le> fuel \<Longrightarrow>
   BufferSize_keys fuel h p BufferSize
     = Inr (BufferSize + length (concat (map (\<lambda>k. render_key (key_entry h k)) ks)))"
proof (induction ks arbitrary: p fuel BufferSize)
  case Nil
  then show ?case by simp
next
  case (Cons a as)
  then obtain f where "fuel = Suc f" by (cases fuel) auto
  with Cons show ?case
    by (auto simp: get_key_def render_key_def key_entry_def wcslen_def CRLF_def)
qed

lemma fill_sections_path:
  "path (\<lambda>a. Section_Next (Sections h ! a)) (length (Sections h)) p (map fst L) \<Longrightarrow>
   list_all (section_ok h) L \<Longrightarrow> length L \<le> fuel \<Longrightarrow>
   fill_sections fuel h p Buffer = Inr (Buffer @ render_entries (entries_of h L))"
proof (induction L arbitrary: p fuel Buffer)
  case Nil
  then show ?case by (simp add: entries_of_def)
next
  case (Cons sk L)
  obtain s ks where sk: "sk = (s, ks)" by (cases sk)
  from Cons.prems obtain f where fuel: "fuel = Suc f" by (cases fuel) auto
  let ?S = "Sections h ! s"
  from Cons.prems sk have p: "p = Some s"
    and nxt: "path (\<lambda>a. Section_Next (Sections h ! a)) (length (Sections h)) (Section_Next ?S) (map fst L)"
    and rest: "list_all (section_ok h) L" and fl: "length L \<le> f" and o: "section_ok h (s, ks)"
    using fuel by auto
  from o have sv: "s < length (Sections h)"
    and kp: "path (\<lambda>a. Key_Next (Keys h ! a)) (length (Keys h)) (FirstKey ?S) ks"
    by (simp_all add: section_ok_def key_path_def)
  from kp have "length ks \<le> Suc (length (Keys h))" by (auto dest: path_length)
  note fk = fill_keys_path [OF kp this]
  from nxt have e: "Section_Next ?S \<noteq> None \<longleftrightarrow> L \<noteq> []" by (cases L) auto
  show ?case
    using p sv fuel fk Cons.IH [OF nxt rest fl] e
    by (cases "L = []")
       (simp_all add: get_section_def sk entries_of_Cons render_entries_Cons render_section_def
          comp_def)
qed

lemma BufferSize_sections_path:
  "path (\<lambda>a. Section_Next (Sections h ! a)) (length (Sections h)) p (map fst L) \<Longrightarrow>
   list_all (section_ok h) L \<Longrightarrow> length L \<le> fuel \<Longrightarrow>
   BufferSize_sections fuel h p BufferSize
     = Inr (BufferSize + length (render_entries (entries_of h L)))"
proof (induction L arbitrary: p fuel BufferSize)
  case Nil
  then show ?case by (simp add: entries_of_def)
next
  case (Cons sk L)
  obtain s ks where sk: "sk = (s, ks)" by (cases sk)
  from Cons.prems obtain f where fuel: "fuel = Suc f" by (cases fuel) auto
  let ?S = "Sections h ! s"
  from Cons.prems sk have p: "p = Some s"
    and nxt: "path (\<lambda>a. Section_Next (Sections h ! a)) (length (Sections h)) (Section_Next ?S) (map fst L)"
    and rest: "list_all (section_ok h) L" and fl: "length L \<le> f" and o: "section_ok h (s, ks)"
    using fuel by auto
  from o have sv: "s < length (Sections h)"
    and kp: "path (\<lambda>a. Key_Next (Keys h ! a)) (length (Keys h)) (FirstKey ?S) ks"
    by (simp_all add: section_ok_def key_path_def)
  from kp have "length ks \<le> Suc (length (Keys h))" by (auto dest: path_length)
  note fk = BufferSize_keys_path [OF kp this]
  from nxt have e: "Section_Next ?S \<noteq> None \<longleftrightarrow> L \<noteq> []" by (cases L) auto
  show ?case
    using p sv fuel fk Cons.IH [OF nxt rest fl] e
    by (cases "L = []")
       (simp_all add: get_section_def sk entries_of_Cons render_entries_Cons render_section_def
          wcslen_def CRLF_def comp_def)
qed

subsection \<open>Adding a key at the end of a section\<close>

lemma RtlAllocateHeap_no_failures: "Allocs h = [] \<Longrightarrow> RtlAllocateHeap h = (True, h)"
  by (simp add: RtlAllocateHeap_def)

lemma distinct_concat_nth:
  "distinct (concat xss) \<Longrightarrow> i < length xss \<Longrightarrow> j < length xss \<Longrightarrow> i \<noteq> j \<Longrightarrow>
   x \<in> set (xss ! i) \<Longrightarrow> x \<notin> set (xss ! j)"
proof (induction xss arbitrary: i j)
  case Nil
  then show ?case by simp
next
  case (Cons xs xss)
  show ?case
  proof (cases i)
    case 0
    with Cons.prems obtain j' where "j = Suc j'" "j' < length xss" by (cases j) auto
    with 0 Cons.prems show ?thesis by (auto dest: nth_mem)
  next
    case (Suc i')
    show ?thesis
    proof (cases j)
      case 0
      with Suc Cons.prems show ?thesis by (auto dest: nth_mem)
    next
      case (Suc j')
      with \<open>i = Suc i'\<close> Cons.prems Cons.IH [of i' j'] show ?thesis by auto
    qed
  qed
qed

lemma distinct_concat_nth_distinct:
  "distinct (concat xss) \<Longrightarrow> i < length xss \<Longrightarrow> distinct (xss ! i)"
  by (induction xss arbitrary: i) (auto simp: nth_Cons split: nat.splits)

lemma set_concat_snoc_update:
  "i < length xss \<Longrightarrow> set (concat (xss[i := xss ! i @ [K]])) = insert K (set (concat xss))"
  by (induction xss arbitrary: i) (auto simp: nth_Cons split: nat.splits)

lemma distinct_concat_snoc_update:
  "distinct (concat xss) \<Longrightarrow> i < length xss \<Longrightarrow> K \<notin> set (concat xss) \<Longrightarrow>
   distinct (concat (xss[i := xss ! i @ [K]]))"
proof (induction xss arbitrary: i)
  case Nil
  then show ?case by simp
next
  case (Cons xs xss)
  show ?case
  proof (cases i)
    case 0
    with Cons.prems show ?thesis by auto
  next
    case (Suc i')
    with Cons.prems have i': "i' < length xss" by simp
    from Cons.prems Suc i' have "distinct (concat (xss[i' := xss ! i' @ [K]]))"
      by (intro Cons.IH) auto
    with Cons.prems Suc i' show ?thesis
      by (auto simp: set_concat_snoc_update simp del: set_concat)
  qed
qed

lemma cache_ok_key_valid:
  assumes "cache_ok h c L" and "(s, ks) \<in> set L" and "k \<in> set ks"
  shows "k < length (Keys h)"
proof -
  from assms(1,2)
  have "path (\<lambda>a. Key_Next (Keys h ! a)) (length (Keys h)) (FirstKey (Sections h ! s)) ks"
    by (auto simp: cache_ok_def list_all_iff section_ok_def key_path_def)
  with assms(3) show ?thesis by (auto dest: path_valid)
qed

lemma cache_ok_keys_valid:
  assumes "cache_ok h c L" and "k \<in> set (concat (map snd L))"
  shows "k < length (Keys h)"
proof -
  from assms(2) obtain s ks where "(s, ks) \<in> set L" "k \<in> set ks" by auto
  with assms(1) show ?thesis by (rule cache_ok_key_valid)
qed

lemma cache_ok_sections_distinct: "cache_ok h c L \<Longrightarrow> distinct (map fst L)"
  by (auto simp: cache_ok_def section_path_def dest: path_distinct)

lemma cache_ok_section_valid: "cache_ok h c L \<Longrightarrow> (s, ks) \<in> set L \<Longrightarrow> s < length (Sections h)"
  by (auto simp: cache_ok_def list_all_iff section_ok_def)


lemma key_entry_cong:
  "Key_Name (Keys h' ! k) = Key_Name (Keys h ! k) \<Longrightarrow> Key_Data (Keys h' ! k) = Key_Data (Keys h ! k)
   \<Longrightarrow> key_entry h' k = key_entry h k"
  by (simp add: key_entry_def)

lemma entries_of_nth:
  "i < length L \<Longrightarrow> L ! i = (s, ks) \<Longrightarrow>
   entries_of h L ! i = (c_str (Section_Name (Sections h ! s)), map (key_entry h) ks)"
  by (simp add: entries_of_def key_entry_def)

lemma length_entries_of [simp]: "length (entries_of h L) = length L"
  by (simp add: entries_of_def)

lemma IniCacheAddKeyAorW_last_existing:
  assumes ok: "cache_ok h c L" and i: "i < length L" and Li: "L ! i = (s, ks)"
    and len: "0 < NameLength" "0 < DataLength" and al: "Allocs h = []"
    and m: "matching_key h ks (wcsncpy Name NameLength) = Some k"
  shows "\<exists>h'. IniCacheAddKeyAorW h (Some s) AnchorKey InsertionType (Some Name) NameLength
                 (Some Data) DataLength IsUnicode = Inr (Some k, h')
           \<and> cache_ok h' c L
           \<and> entries_of h' L = entries_add_key (entries_of h L) i
                 (wcsncpy Name NameLength) (wcsncpy Data DataLength)
           \<and> Allocs h' = []"
proof -
  let ?N = "wcsncpy Name NameLength" and ?D = "wcsncpy Data DataLength"
  let ?h' = "with_key_data h k ?D"
  from i Li have mem: "(s, ks) \<in> set L" by (metis nth_mem)
  with ok have so: "section_ok h (s, ks)" by (auto simp: cache_ok_def list_all_iff)
  then have sk: "section_keys h s = Inr ks" by (rule section_ok_keys)
  from al have "allocs_succeed 2 h" "after_allocs 2 h = h"
    by (simp_all add: allocs_succeed_def after_allocs_def)
  with IniCacheAddKeyAorW_existing [OF sk m len]
  have r: "IniCacheAddKeyAorW h (Some s) AnchorKey InsertionType (Some Name) NameLength
                 (Some Data) DataLength IsUnicode = Inr (Some k, ?h')" by simp
  have fields: "Sections ?h' = Sections h" "Caches ?h' = Caches h" "Allocs ?h' = Allocs h"
    "length (Keys ?h') = length (Keys h)"
    by (simp_all add: with_key_data_def)
  from m have kin: "k \<in> set ks" by (simp add: matching_key_Some)
  with ok mem have kv: "k < length (Keys h)" by (rule cache_ok_key_valid)
  have nxt: "Key_Next (Keys ?h' ! a) = Key_Next (Keys h ! a)" for a
    using kv by (cases "a = k") (simp_all add: with_key_data_def)
  have "section_ok ?h' sk = section_ok h sk" for sk
    by (simp add: section_ok_def key_path_def fields nxt)
  then have "section_ok ?h' = section_ok h" by (rule ext)
  then have ok': "cache_ok ?h' c L"
    using ok by (simp add: cache_ok_def section_path_def fields)
  from ok have dist: "distinct (concat (map snd L))" by (simp add: cache_ok_def)
  obtain j where fi: "first_index (\<lambda>kv. wcsicmp (fst kv) ?N = 0) (map (key_entry h) ks) = Some j"
    and kj: "k = ks ! j"
    using m by (auto simp: matching_key_entries key_entry_def [abs_def])
  from fi have jl: "j < length ks" by (auto dest: first_index_Some)
  from dist i Li have dks: "distinct ks"
    using distinct_concat_nth_distinct [of "map snd L" i] by simp
  have dat: "key_entry ?h' a = (if a = k then (fst (key_entry h k), ?D) else key_entry h a)" for a
    using kv by (simp add: key_entry_def with_key_data_def)
  have "entries_of ?h' L = entries_add_key (entries_of h L) i ?N ?D"
  proof (rule nth_equalityI)
    show "length (entries_of ?h' L) = length (entries_add_key (entries_of h L) i ?N ?D)"
      by (simp add: entries_add_key_def)
  next
    fix i' assume "i' < length (entries_of ?h' L)"
    then have i': "i' < length L" by simp
    obtain s' ks' where Li': "L ! i' = (s', ks')" by (cases "L ! i'")
    show "entries_of ?h' L ! i' = entries_add_key (entries_of h L) i ?N ?D ! i'"
    proof (cases "i' = i")
      case True
      with Li Li' have [simp]: "s' = s" "ks' = ks" by simp_all
      have "map (key_entry ?h') ks = (map (key_entry h) ks)[j := (fst (map (key_entry h) ks ! j), ?D)]"
      proof (rule nth_equalityI)
        fix n assume "n < length (map (key_entry ?h') ks)"
        then have n: "n < length ks" by simp
        with dks jl kj have e: "ks ! n = k \<longleftrightarrow> n = j" by (simp add: nth_eq_iff_index_eq)
        have "ks ! j = k" by (simp add: kj)
        with n jl e show "map (key_entry ?h') ks ! n
            = (map (key_entry h) ks)[j := (fst (map (key_entry h) ks ! j), ?D)] ! n"
          by (auto simp: dat nth_list_update)
      qed simp
      with True i Li fi show ?thesis
        by (simp add: entries_add_key_def entries_of_nth [OF i Li] fields)
    next
      case False
      have "key_entry ?h' a = key_entry h a" if "a \<in> set ks'" for a
      proof -
        from that i' Li' have "a \<in> set (map snd L ! i')" by simp
        moreover from kin i Li have "k \<in> set (map snd L ! i)" by simp
        ultimately have "a \<noteq> k"
          using distinct_concat_nth [OF dist, of i i' k] i i' False by auto
        then show ?thesis by (simp add: dat)
      qed
      then have "map (key_entry ?h') ks' = map (key_entry h) ks'" by simp
      with False i' Li' show ?thesis
        by (simp add: entries_add_key_def entries_of_nth [OF i' Li'] fields)
    qed
  qed
  with r ok' al fields show ?thesis by auto
qed


lemma IniCacheAddKeyAorW_last_new_heap:
  assumes ok: "cache_ok h c L" and mem: "(s, ks) \<in> set L"
    and len: "0 < NameLength" "0 < DataLength" and al: "Allocs h = []"
    and m: "matching_key h ks (wcsncpy Name NameLength) = None"
  shows "\<exists>h'. IniCacheAddKeyAorW h (Some s) None INSERT_LAST (Some Name) NameLength
                 (Some Data) DataLength IsUnicode = Inr (Some (length (Keys h)), h')
           \<and> Caches h' = Caches h \<and> Allocs h' = []
           \<and> length (Sections h') = length (Sections h)
           \<and> (\<forall>a. Section_Next (Sections h' ! a) = Section_Next (Sections h ! a)
                  \<and> Section_Name (Sections h' ! a) = Section_Name (Sections h ! a))
           \<and> (\<forall>a. a \<noteq> s \<longrightarrow> Sections h' ! a = Sections h ! a)
           \<and> LastKey (Sections h' ! s) = Some (length (Keys h))
           \<and> key_path h' (FirstKey (Sections h' ! s)) (ks @ [length (Keys h)])
           \<and> length (Keys h') = Suc (length (Keys h))
           \<and> (\<forall>a < length (Keys h). key_entry h' a = key_entry h a)
           \<and> key_entry h' (length (Keys h)) = (wcsncpy Name NameLength, wcsncpy Data DataLength)
           \<and> (\<forall>a < length (Keys h). a \<notin> set ks \<longrightarrow> Keys h' ! a = Keys h ! a)"
proof -
  let ?N = "wcsncpy Name NameLength" and ?D = "wcsncpy Data DataLength"
  let ?K = "length (Keys h)"
  let ?S = "Sections h ! s"
  let ?new = "\<lparr>Key_Name = ?N, Key_Data = ?D, Key_Next = None, Key_Prev = None\<rparr>"
  let ?h4 = "h\<lparr>Keys := Keys h @ [?new]\<rparr>"
  from al have a: "RtlAllocateHeap h = (True, h)" by (rule RtlAllocateHeap_no_failures)
  from ok mem have so: "section_ok h (s, ks)" by (auto simp: cache_ok_def list_all_iff)
  then have sv: "s < length (Sections h)"
    and kp: "path (\<lambda>a. Key_Next (Keys h ! a)) ?K (FirstKey ?S) ks"
    and lk: "LastKey ?S = last_of ks"
    by (simp_all add: section_ok_def key_path_def)
  from so have sk: "section_keys h s = Inr ks" by (rule section_ok_keys)
  have f: "IniCacheFindKey h (Some s) ?N = Inr None"
    using IniCacheFindKey_section_keys [OF sk, of ?N] m by simp
  have u: "IniCacheAddKeyAorW h (Some s) None INSERT_LAST (Some Name) NameLength
                 (Some Data) DataLength IsUnicode
         = bindF (insert_key_into_section ?h4 (Some s) None INSERT_LAST ?K) (\<lambda>h5. Inr (Some ?K, h5))"
    using len f by (simp add: IniCacheAddKeyAorW_unfold [OF a a a])
  have g: "get_section ?h4 (Some s) = Inr ?S" using sv by (simp add: get_section_def)
  show ?thesis
  proof (cases "ks = []")
    case True
    with kp have first: "FirstKey ?S = None" by simp
    let ?h5 = "?h4\<lparr>Sections := (Sections h)[s := ?S\<lparr>FirstKey := Some ?K, LastKey := Some ?K\<rparr>]\<rparr>"
    have "insert_key_into_section ?h4 (Some s) None INSERT_LAST ?K = Inr ?h5"
      using g first sv by (simp add: insert_key_into_section_def set_section_def)
    with u have r: "IniCacheAddKeyAorW h (Some s) None INSERT_LAST (Some Name) NameLength
                 (Some Data) DataLength IsUnicode = Inr (Some ?K, ?h5)" by simp
    have "key_path ?h5 (FirstKey (Sections ?h5 ! s)) (ks @ [?K])"
      using True sv by (simp add: key_path_def)
    moreover have "\<forall>a. Section_Next (Sections ?h5 ! a) = Section_Next (Sections h ! a)
                  \<and> Section_Name (Sections ?h5 ! a) = Section_Name (Sections h ! a)"
      using sv by (auto simp: nth_list_update)
    moreover have "\<forall>a < ?K. key_entry ?h5 a = key_entry h a"
      by (simp add: key_entry_def nth_append)
    moreover have "key_entry ?h5 ?K = (?N, ?D)" by (simp add: key_entry_def)
    moreover have "\<forall>a < ?K. a \<notin> set ks \<longrightarrow> Keys ?h5 ! a = Keys h ! a"
      by (simp add: nth_append)
    ultimately show ?thesis using r al sv by (intro exI [of _ ?h5]) simp
  next
    case False
    with kp obtain f0 where first: "FirstKey ?S = Some f0" by (cases ks) auto
    let ?l = "last ks"
    from False lk have last: "LastKey ?S = Some ?l" by (simp add: last_of_def)
    from False have lin: "?l \<in> set ks" by (rule last_in_set)
    with kp have lv: "?l < ?K" by (auto dest: path_valid)
    define keys5 where "keys5 = (Keys h @ [?new])[?l := (Keys h ! ?l)\<lparr>Key_Next := Some ?K\<rparr>,
                           ?K := ?new\<lparr>Key_Prev := Some ?l\<rparr>]"
    let ?h5 = "h\<lparr>Keys := keys5, Sections := (Sections h)[s := ?S\<lparr>LastKey := Some ?K\<rparr>]\<rparr>"
    have "insert_key_into_section ?h4 (Some s) None INSERT_LAST ?K = Inr ?h5"
      using g first last sv lv
      by (simp add: insert_key_into_section_def set_section_def set_key_def nth_append keys5_def)
    with u have r: "IniCacheAddKeyAorW h (Some s) None INSERT_LAST (Some Name) NameLength
                 (Some Data) DataLength IsUnicode = Inr (Some ?K, ?h5)" by simp
    have len5: "length keys5 = Suc ?K" by (simp add: keys5_def)
    have old: "keys5 ! a = Keys h ! a" if "a < ?K" "a \<noteq> ?l" for a
      using that by (simp add: keys5_def nth_append)
    have oldl: "keys5 ! ?l = (Keys h ! ?l)\<lparr>Key_Next := Some ?K\<rparr>"
      using lv by (simp add: keys5_def nth_append)
    have newK: "keys5 ! ?K = ?new\<lparr>Key_Prev := Some ?l\<rparr>"
      using lv by (simp add: keys5_def)
    have kp5: "path (\<lambda>a. Key_Next (keys5 ! a)) (Suc ?K) (FirstKey ?S) (ks @ [?K])"
    proof (rule path_snoc [OF kp False])
      show "?K \<notin> set ks" using kp by (auto dest: path_valid)
      show "Key_Next (keys5 ! ?l) = Some ?K" using oldl by simp
      show "Key_Next (keys5 ! ?K) = None" using newK by simp
      fix a assume a: "a \<in> set (butlast ks)"
      from kp have "distinct ks" by (rule path_distinct)
      with a have "a \<noteq> ?l" "a \<in> set ks" by (auto dest: butlast_not_last in_set_butlastD)
      with kp old [of a] show "Key_Next (keys5 ! a) = Key_Next (Keys h ! a)"
        by (auto dest: path_valid)
    qed simp_all
    then have "key_path ?h5 (FirstKey (Sections ?h5 ! s)) (ks @ [?K])"
      using sv len5 by (simp add: key_path_def)
    moreover have "\<forall>a. Section_Next (Sections ?h5 ! a) = Section_Next (Sections h ! a)
                  \<and> Section_Name (Sections ?h5 ! a) = Section_Name (Sections h ! a)"
      using sv by (auto simp: nth_list_update)
    moreover have "\<forall>a < ?K. key_entry ?h5 a = key_entry h a"
    proof (intro allI impI)
      fix a assume "a < ?K"
      with old [of a] oldl show "key_entry ?h5 a = key_entry h a"
        by (cases "a = ?l") (simp_all add: key_entry_def)
    qed
    moreover have "key_entry ?h5 ?K = (?N, ?D)" using newK by (simp add: key_entry_def)
    moreover have "\<forall>a < ?K. a \<notin> set ks \<longrightarrow> Keys ?h5 ! a = Keys h ! a"
      using old lin by auto
    ultimately show ?thesis using r al sv len5 by (intro exI [of _ ?h5]) simp
  qed
qed


lemma IniCacheAddKeyAorW_last_new:
  assumes ok: "cache_ok h c L" and i: "i < length L" and Li: "L ! i = (s, ks)"
    and len: "0 < NameLength" "0 < DataLength" and al: "Allocs h = []"
    and m: "matching_key h ks (wcsncpy Name NameLength) = None"
  shows "\<exists>h'. IniCacheAddKeyAorW h (Some s) None INSERT_LAST (Some Name) NameLength
                 (Some Data) DataLength IsUnicode = Inr (Some (length (Keys h)), h')
           \<and> cache_ok h' c (L[i := (s, ks @ [length (Keys h)])])
           \<and> entries_of h' (L[i := (s, ks @ [length (Keys h)])])
               = entries_add_key (entries_of h L) i
                   (wcsncpy Name NameLength) (wcsncpy Data DataLength)
           \<and> Allocs h' = []"
proof -
  let ?N = "wcsncpy Name NameLength" and ?D = "wcsncpy Data DataLength"
  let ?K = "length (Keys h)"
  let ?L' = "L[i := (s, ks @ [?K])]"
  from i Li have mem: "(s, ks) \<in> set L" by (metis nth_mem)
  from IniCacheAddKeyAorW_last_new_heap [OF ok mem len al m, where IsUnicode = IsUnicode and Data = Data]
  obtain h' where r: "IniCacheAddKeyAorW h (Some s) None INSERT_LAST (Some Name) NameLength
                 (Some Data) DataLength IsUnicode = Inr (Some ?K, h')"
    and ca: "Caches h' = Caches h" and al': "Allocs h' = []"
    and ls: "length (Sections h') = length (Sections h)"
    and sn: "\<And>a. Section_Next (Sections h' ! a) = Section_Next (Sections h ! a)"
    and snm: "\<And>a. Section_Name (Sections h' ! a) = Section_Name (Sections h ! a)"
    and so: "\<And>a. a \<noteq> s \<Longrightarrow> Sections h' ! a = Sections h ! a"
    and lk: "LastKey (Sections h' ! s) = Some ?K"
    and kp: "key_path h' (FirstKey (Sections h' ! s)) (ks @ [?K])"
    and lks: "length (Keys h') = Suc ?K"
    and ke: "\<And>a. a < ?K \<Longrightarrow> key_entry h' a = key_entry h a"
    and kn: "key_entry h' ?K = (?N, ?D)"
    and ko: "\<And>a. a < ?K \<Longrightarrow> a \<notin> set ks \<Longrightarrow> Keys h' ! a = Keys h ! a"
    by blast
  from ok have c: "c < length (Caches h)"
    and sp: "section_path h (FirstSection (Caches h ! c)) (map fst L)"
    and lst: "LastSection (Caches h ! c) = last_of (map fst L)"
    and secs: "list_all (section_ok h) L"
    and dist: "distinct (concat (map snd L))"
    by (simp_all add: cache_ok_def)
  from ok have ds: "distinct (map fst L)" by (rule cache_ok_sections_distinct)
  have fstL': "map fst ?L' = map fst L"
    using i Li by (simp add: map_update) (metis fst_conv list_update_id nth_map length_map)
  have sndL': "map snd ?L' = (map snd L)[i := map snd L ! i @ [?K]]"
    using i Li by (simp add: map_update)
  have sp': "section_path h' (FirstSection (Caches h' ! c)) (map fst ?L')"
    using sp unfolding section_path_def fstL' ca ls
    by (rule path_frame) (simp_all add: sn)
  have fresh: "?K \<notin> set (concat (map snd L))"
    using cache_ok_keys_valid [OF ok, of ?K] by auto
  have dist': "distinct (concat (map snd ?L'))"
    unfolding sndL' using dist i fresh by (intro distinct_concat_snoc_update) simp_all
  have sok: "section_ok h' (?L' ! i')" if i': "i' < length L" for i'
  proof (cases "i' = i")
    case True
    with i kp lk ls mem ok show ?thesis
      by (auto simp: section_ok_def dest: cache_ok_section_valid)
  next
    case False
    obtain s' ks' where Li': "L ! i' = (s', ks')" by (cases "L ! i'")
    with i' have mem': "(s', ks') \<in> set L" by (metis nth_mem)
    from ds i i' False Li Li' have "s' \<noteq> s"
      by (metis fst_conv nth_eq_iff_index_eq nth_map length_map)
    then have same: "Sections h' ! s' = Sections h ! s'" by (rule so)
    from secs mem' have o: "section_ok h (s', ks')" by (auto simp: list_all_iff)
    have dj: "a \<notin> set ks" if "a \<in> set ks'" for a
      using distinct_concat_nth [OF dist, of i' i a] i i' False Li Li' that by auto
    from o have "path (\<lambda>a. Key_Next (Keys h ! a)) ?K (FirstKey (Sections h ! s')) ks'"
      by (simp add: section_ok_def key_path_def)
    then have "path (\<lambda>a. Key_Next (Keys h' ! a)) (Suc ?K) (FirstKey (Sections h ! s')) ks'"
    proof (rule path_frame)
      fix a assume a: "a \<in> set ks'"
      with ok mem' have "a < ?K" by (rule cache_ok_key_valid)
      with dj [OF a] show "Key_Next (Keys h' ! a) = Key_Next (Keys h ! a)" by (simp add: ko)
    qed simp
    with o same False i' Li' ls lks show ?thesis
      by (simp add: section_ok_def key_path_def)
  qed
  have "list_all (section_ok h') ?L'"
    unfolding list_all_length using sok by simp
  with c sp' lst dist' have ok': "cache_ok h' c ?L'"
    by (simp add: cache_ok_def ca fstL')
  from m have fi: "first_index (\<lambda>kv. wcsicmp (fst kv) ?N = 0) (map (key_entry h) ks) = None"
    by (cases "first_index (\<lambda>kv. wcsicmp (fst kv) ?N = 0) (map (key_entry h) ks)")
       (simp_all add: matching_key_entries key_entry_def [abs_def])
  have "entries_of h' ?L' = entries_add_key (entries_of h L) i ?N ?D"
  proof (rule nth_equalityI)
    show "length (entries_of h' ?L') = length (entries_add_key (entries_of h L) i ?N ?D)"
      by (simp add: entries_add_key_def)
  next
    fix i' assume "i' < length (entries_of h' ?L')"
    then have i': "i' < length L" by simp
    show "entries_of h' ?L' ! i' = entries_add_key (entries_of h L) i ?N ?D ! i'"
    proof (cases "i' = i")
      case True
      from ok mem have "\<And>a. a \<in> set ks \<Longrightarrow> a < ?K" by (rule cache_ok_key_valid)
      then have "map (key_entry h') ks = map (key_entry h) ks" by (simp add: ke)
      with True i fi kn show ?thesis
        by (simp add: entries_add_key_def entries_of_nth [OF i Li]
            entries_of_nth [of i ?L' s "ks @ [?K]"] snm)
    next
      case False
      obtain s' ks' where Li': "L ! i' = (s', ks')" by (cases "L ! i'")
      with i' have mem': "(s', ks') \<in> set L" by (metis nth_mem)
      from ok mem' have "\<And>a. a \<in> set ks' \<Longrightarrow> a < ?K" by (rule cache_ok_key_valid)
      then have "map (key_entry h') ks' = map (key_entry h) ks'" by (simp add: ke)
      with False i' Li' show ?thesis
        by (simp add: entries_add_key_def entries_of_nth [OF i' Li']
            entries_of_nth [of i' ?L' s' ks'] snm)
    qed
  qed
  with r ok' al' show ?thesis by blast
qed

lemma IniCacheAddKeyAorW_sim:
  assumes ok: "cache_ok h c L" and i: "i < length L"
    and len: "0 < NameLength" "0 < DataLength" and al: "Allocs h = []"
  shows "\<exists>K h' L'. IniCacheAddKeyAorW h (Some (fst (L ! i))) None INSERT_LAST (Some Name) NameLength
                 (Some Data) DataLength IsUnicode = Inr (K, h')
           \<and> cache_ok h' c L' \<and> map fst L' = map fst L
           \<and> entries_of h' L' = entries_add_key (entries_of h L) i
                 (wcsncpy Name NameLength) (wcsncpy Data DataLength)
           \<and> Allocs h' = []"
proof -
  obtain s ks where Li: "L ! i = (s, ks)" by (cases "L ! i")
  show ?thesis
  proof (cases "matching_key h ks (wcsncpy Name NameLength)")
    case None
    from IniCacheAddKeyAorW_last_new [OF ok i Li len al None, where IsUnicode = IsUnicode and Data = Data]
    obtain h' where "IniCacheAddKeyAorW h (Some s) None INSERT_LAST (Some Name) NameLength
                 (Some Data) DataLength IsUnicode = Inr (Some (length (Keys h)), h')"
      "cache_ok h' c (L[i := (s, ks @ [length (Keys h)])])"
      "entries_of h' (L[i := (s, ks @ [length (Keys h)])])
               = entries_add_key (entries_of h L) i
                   (wcsncpy Name NameLength) (wcsncpy Data DataLength)"
      "Allocs h' = []" by blast
    moreover have "map fst (L[i := (s, ks @ [length (Keys h)])]) = map fst L"
      using i Li by (simp add: map_update) (metis fst_conv list_update_id nth_map length_map)
    ultimately show ?thesis using Li by auto
  next
    case (Some k)
    from IniCacheAddKeyAorW_last_existing [OF ok i Li len al Some, where AnchorKey = None
      and InsertionType = INSERT_LAST and Data = Data and IsUnicode = IsUnicode]
    show ?thesis using Li by auto
  qed
qed

lemma IniCacheAddSectionAorW_sim:
  assumes ok: "cache_ok h c L" and len: "0 < NameLength" and al: "Allocs h = []"
  shows "\<exists>s h' L' i. IniCacheAddSectionAorW h (Some c) (Some Name) NameLength IsUnicode
                        = Inr (Some s, h')
           \<and> cache_ok h' c L' \<and> Allocs h' = [] \<and> i < length L' \<and> s = fst (L' ! i)
           \<and> entries_add_section (entries_of h L) (wcsncpy Name NameLength) = (i, entries_of h' L')"
proof -
  let ?N = "wcsncpy Name NameLength"
  from al have as: "allocs_succeed 1 h" "allocs_succeed 2 h" "after_allocs 1 h = h"
    by (simp_all add: allocs_succeed_def after_allocs_def)
  show ?thesis
  proof (cases "first_index (\<lambda>e. wcsicmp (fst e) ?N = 0) (entries_of h L)")
    case None
    then have m: "matching_section h (map fst L) ?N = None"
      by (simp add: matching_section_entries)
    from IniCacheAddSectionAorW_new [OF ok m len as(2), where IsUnicode = IsUnicode]
    obtain h' where r: "IniCacheAddSectionAorW h (Some c) (Some Name) NameLength IsUnicode
                = Inr (Some (length (Sections h)), h')"
      and ok': "cache_ok h' c (L @ [(length (Sections h), [])])"
      and e: "entries_of h' (L @ [(length (Sections h), [])]) = entries_of h L @ [(c_str ?N, [])]"
      and al': "Allocs h' = drop 2 (Allocs h)"
      by blast
    from None e have "entries_add_section (entries_of h L) ?N
        = (length L, entries_of h' (L @ [(length (Sections h), [])]))"
      by (simp add: entries_add_section_def)
    with r ok' al' al show ?thesis
      by (intro exI [of _ "length (Sections h)"] exI [of _ h']
          exI [of _ "L @ [(length (Sections h), [])]"] exI [of _ "length L"]) simp
  next
    case (Some i)
    then have il: "i < length L" by (auto dest: first_index_Some)
    from Some have m: "matching_section h (map fst L) ?N = Some (fst (L ! i))"
      by (simp add: matching_section_entries)
    from IniCacheAddSectionAorW_existing [OF ok m len as(1), where IsUnicode = IsUnicode] as(3)
    have r: "IniCacheAddSectionAorW h (Some c) (Some Name) NameLength IsUnicode
                = Inr (Some (fst (L ! i)), h)" by simp
    from Some have "entries_add_section (entries_of h L) ?N = (i, entries_of h L)"
      by (simp add: entries_add_section_def)
    with r ok al il show ?thesis by blast
  qed
qed

lemma IniCacheLoadFromMemory_loop_sim:
  assumes "cache_ok h c L" and "Allocs h = []" and "section_at L Section cur"
  shows "case load_entries (entries_of h L) cur Ptr String of
           Inl e \<Rightarrow> IniCacheLoadFromMemory_loop h (Some c) Section Ptr String = Inl e
         | Inr es \<Rightarrow>
             (\<exists>h' L'. IniCacheLoadFromMemory_loop h (Some c) Section Ptr String = Inr h'
                \<and> cache_ok h' c L' \<and> entries_of h' L' = es \<and> Allocs h' = [])"
  using assms
proof (induction "entries_of h L" cur Ptr String arbitrary: h L Section rule: load_entries.induct)
  case (1 cur Ptr String)
  note ok = "1.prems"(1) and al = "1.prems"(2) and at = "1.prems"(3)
  let ?es = "entries_of h L"
  let ?A = "load_entries ?es cur Ptr String"
  let ?H = "IniCacheLoadFromMemory_loop h (Some c) Section Ptr String"
  note ls = load_entries.simps [of ?es cur Ptr String]
  note hs = IniCacheLoadFromMemory_loop.simps [of h "Some c" Section Ptr String]
  have fault: ?case if "?A = Inl e" "?H = Inl e" for e
    using that by simp
  have stop: ?case if "?A = Inr ?es" "?H = Inr h"
    using that ok al by auto
  have step: ?case
    if "?A = load_entries (entries_of h1 L1) cur1 P1 String"
      "?H = IniCacheLoadFromMemory_loop h1 (Some c) Section1 P1 String"
      "case load_entries (entries_of h1 L1) cur1 P1 String of
           Inl e \<Rightarrow> IniCacheLoadFromMemory_loop h1 (Some c) Section1 P1 String = Inl e
         | Inr es \<Rightarrow>
             (\<exists>h' L'. IniCacheLoadFromMemory_loop h1 (Some c) Section1 P1 String = Inr h'
                \<and> cache_ok h' c L' \<and> entries_of h' L' = es \<and> Allocs h' = [])"
    for h1 L1 cur1 P1 Section1
    unfolding that(1,2) by (rule that(3))
  show ?case
  proof (cases Ptr)
    case None
    show ?thesis
    proof (rule stop)
      show "?A = Inr ?es" unfolding ls using None by simp
      show "?H = Inr h" unfolding hs using None by simp
    qed
  next
    case (Some P)
    show ?thesis
    proof (cases "deref P")
      case (Inl e)
      show ?thesis
      proof (rule fault)
        show "?A = Inl e" unfolding ls using Some Inl by simp
        show "?H = Inl e" unfolding hs using Some Inl by simp
      qed
    next
      case c: (Inr c0)
      show ?thesis
      proof (cases "c0 = NUL")
        case True
        show ?thesis
        proof (rule stop)
          show "?A = Inr ?es" unfolding ls using Some c True by simp
          show "?H = Inr h" unfolding hs using Some c True by simp
        qed
      next
        case nz: False
        show ?thesis
        proof (cases "IniCacheSkipWhitespace P")
          case (Inl e)
          show ?thesis
          proof (rule fault)
            show "?A = Inl e" unfolding ls using Some c nz Inl by simp
            show "?H = Inl e" unfolding hs using Some c nz Inl by simp
          qed
        next
          case w: (Inr w)
          show ?thesis
          proof (cases w)
            case None
            show ?thesis
            proof (rule stop)
              show "?A = Inr ?es" unfolding ls using Some c nz w None by simp
              show "?H = Inr h" unfolding hs using Some c nz w None by simp
            qed
          next
            case P1: (Some P1)
            show ?thesis
            proof (cases "deref P1")
              case (Inl e)
              show ?thesis
              proof (rule fault)
                show "?A = Inl e" unfolding ls using Some c nz w P1 Inl by simp
                show "?H = Inl e" unfolding hs using Some c nz w P1 Inl by simp
              qed
            next
              case c1: (Inr c1)
              note pre = Some c nz w P1 c1
              show ?thesis
              proof (cases "c1 = CHR ''[''")
                case br: True
                show ?thesis
                proof (cases "IniCacheGetSectionName (tl P1)")
                  case (Inl e)
                  show ?thesis
                  proof (rule fault)
                    show "?A = Inl e" unfolding ls using pre br Inl by simp
                    show "?H = Inl e" unfolding hs using pre br Inl by simp
                  qed
                next
                  case (Inr g)
                  then obtain P2 N n where g: "IniCacheGetSectionName (tl P1) = Inr (P2, N, n)"
                    by (cases g) auto
                  have skip: ?thesis
                    if a: "entries_AddSection ?es N n = (None, ?es)"
                      and b: "IniCacheAddSectionAorW h (Some c) N n False = Inr (None, h)"
                  proof (cases "IniCacheSkipToNextSection P2")
                    case (Inl e)
                    show ?thesis
                    proof (rule fault)
                      show "?A = Inl e" unfolding ls using pre br g a Inl by simp
                      show "?H = Inl e" unfolding hs using pre br g b Inl by simp
                    qed
                  next
                    case (Inr P3)
                    show ?thesis
                    proof (rule step)
                      show "?A = load_entries ?es None P3 String"
                        unfolding ls using pre br g a Inr by simp
                      show "?H = IniCacheLoadFromMemory_loop h (Some c) None P3 String"
                        unfolding hs using pre br g b Inr by simp
                      show "case load_entries ?es None P3 String of
                         Inl e \<Rightarrow> IniCacheLoadFromMemory_loop h (Some c) None P3 String = Inl e
                       | Inr es \<Rightarrow>
                           (\<exists>h' L'. IniCacheLoadFromMemory_loop h (Some c) None P3 String = Inr h'
                              \<and> cache_ok h' c L' \<and> entries_of h' L' = es \<and> Allocs h' = [])"
                        by (rule "1.hyps"(1) [OF Some c nz w P1 c1 br g refl refl a [symmetric] refl Inr ok al])
                           (simp add: section_at_def)
                    qed
                  qed
                  show ?thesis
                  proof (cases N)
                    case None
                    then show ?thesis
                      by (intro skip) (simp_all add: entries_AddSection_def IniCacheAddSectionAorW_def)
                  next
                    case Nm: (Some Nm)
                    show ?thesis
                    proof (cases "n = 0")
                      case True
                      with Nm show ?thesis
                        by (intro skip) (simp_all add: entries_AddSection_def IniCacheAddSectionAorW_def)
                    next
                      case False
                      then have "0 < n" by simp
                      from IniCacheAddSectionAorW_sim [OF ok this al, where Name = Nm and IsUnicode = False]
                      obtain s h' L' i where
                        r: "IniCacheAddSectionAorW h (Some c) (Some Nm) n False = Inr (Some s, h')"
                        and ok': "cache_ok h' c L'" and al': "Allocs h' = []"
                        and i: "i < length L'" "s = fst (L' ! i)"
                        and e: "entries_add_section ?es (wcsncpy Nm n) = (i, entries_of h' L')"
                        by blast
                      from e False Nm have a: "entries_AddSection ?es N n = (Some i, entries_of h' L')"
                        by (simp add: entries_AddSection_def snwprintf_S_eq)
                      from i have at': "section_at L' (Some s) (Some i)" by (simp add: section_at_def)
                      show ?thesis
                      proof (rule step)
                        show "?A = load_entries (entries_of h' L') (Some i) (Some P2) String"
                          unfolding ls using pre br g a by simp
                        show "?H = IniCacheLoadFromMemory_loop h' (Some c) (Some s) (Some P2) String"
                          unfolding hs using pre br g r Nm by simp
                        show "case load_entries (entries_of h' L') (Some i) (Some P2) String of
                           Inl e \<Rightarrow> IniCacheLoadFromMemory_loop h' (Some c) (Some s) (Some P2) String = Inl e
                         | Inr es \<Rightarrow>
                             (\<exists>h'' L''. IniCacheLoadFromMemory_loop h' (Some c) (Some s) (Some P2) String = Inr h''
                                \<and> cache_ok h'' c L'' \<and> entries_of h'' L'' = es \<and> Allocs h'' = [])"
                          by (rule "1.hyps"(2) [OF Some c nz w P1 c1 br g refl refl a [symmetric] refl ok' al' at'])
                      qed
                    qed
                  qed
                qed
              next
                case nbr: False
                show ?thesis
                proof (cases "Section = None")
                  case sn: True
                  with at have cn: "cur = None" by (cases cur) (auto simp: section_at_def)
                  show ?thesis
                  proof (cases "IniCacheSkipToNextSection P1")
                    case (Inl e)
                    show ?thesis
                    proof (rule fault)
                      show "?A = Inl e" unfolding ls using pre nbr cn Inl by simp
                      show "?H = Inl e" unfolding hs using pre nbr sn Inl by simp
                    qed
                  next
                    case (Inr P2)
                    show ?thesis
                    proof (rule step)
                      show "?A = load_entries ?es None P2 String"
                        unfolding ls using pre nbr cn Inr by simp
                      show "?H = IniCacheLoadFromMemory_loop h (Some c) None P2 String"
                        unfolding hs using pre nbr sn Inr by simp
                      show "case load_entries ?es None P2 String of
                         Inl e \<Rightarrow> IniCacheLoadFromMemory_loop h (Some c) None P2 String = Inl e
                       | Inr es \<Rightarrow>
                           (\<exists>h' L'. IniCacheLoadFromMemory_loop h (Some c) None P2 String = Inr h'
                              \<and> cache_ok h' c L' \<and> entries_of h' L' = es \<and> Allocs h' = [])"
                        by (rule "1.hyps"(3) [OF Some c nz w P1 c1 nbr cn Inr refl ok al])
                           (simp add: section_at_def)
                    qed
                  qed
                next
                  case sn: False
                  with at obtain i where cur: "cur = Some i" and i: "i < length L"
                    and sec: "Section = Some (fst (L ! i))"
                    by (cases cur) (auto simp: section_at_def)
                  from cur have cn: "cur \<noteq> None" by simp
                  show ?thesis
                  proof (cases "IniCacheGetKeyName P1")
                    case (Inl e)
                    show ?thesis
                    proof (rule fault)
                      show "?A = Inl e" unfolding ls using pre nbr cur Inl by simp
                      show "?H = Inl e" unfolding hs using pre nbr sec Inl by simp
                    qed
                  next
                    case (Inr kn)
                    then obtain P2 KN kns where kn: "IniCacheGetKeyName P1 = Inr (P2, KN, kns)"
                      by (cases kn) auto
                    show ?thesis
                    proof (cases "IniCacheGetKeyValue P2 String")
                      case (Inl e)
                      show ?thesis
                      proof (rule fault)
                        show "?A = Inl e" unfolding ls using pre nbr cur kn Inl by simp
                        show "?H = Inl e" unfolding hs using pre nbr sec kn Inl by simp
                      qed
                    next
                      case (Inr kv)
                      then obtain P3 KV kvs where kv: "IniCacheGetKeyValue P2 String = Inr (P3, KV, kvs)"
                        by (cases kv) auto
                      have "\<exists>K h' L'. IniCacheAddKeyAorW h Section None INSERT_LAST KN kns KV kvs False
                                = Inr (K, h')
                             \<and> cache_ok h' c L' \<and> Allocs h' = [] \<and> section_at L' Section cur
                             \<and> entries_AddKey ?es cur KN kns KV kvs = entries_of h' L'"
                      proof (cases "KN = None \<or> KV = None \<or> kns = 0 \<or> kvs = 0")
                        case True
                        then have "IniCacheAddKeyAorW h Section None INSERT_LAST KN kns KV kvs False
                                = Inr (None, h)"
                          by (auto simp: IniCacheAddKeyAorW_def split: option.splits)
                        moreover from True have "entries_AddKey ?es cur KN kns KV kvs = ?es"
                          by (auto simp: entries_AddKey_def split: option.splits)
                        ultimately show ?thesis using ok al at by auto
                      next
                        case False
                        then obtain Nm Dt where nd: "KN = Some Nm" "KV = Some Dt" "0 < kns" "0 < kvs"
                          by auto
                        from IniCacheAddKeyAorW_sim [OF ok i nd(3,4) al, where Name = Nm and Data = Dt
                            and IsUnicode = False]
                        obtain K h' L' where
                          r: "IniCacheAddKeyAorW h (Some (fst (L ! i))) None INSERT_LAST (Some Nm) kns
                                (Some Dt) kvs False = Inr (K, h')"
                          and ok': "cache_ok h' c L'" and fs: "map fst L' = map fst L"
                          and e: "entries_of h' L' = entries_add_key ?es i (wcsncpy Nm kns) (wcsncpy Dt kvs)"
                          and al': "Allocs h' = []"
                          by blast
                        from fs have "length L' = length L" by (metis length_map)
                        moreover from fs i have "fst (L' ! i) = fst (L ! i)"
                          by (metis nth_map length_map)
                        ultimately have "section_at L' Section cur"
                          using cur i sec by (simp add: section_at_def)
                        moreover from nd cur e have "entries_AddKey ?es cur KN kns KV kvs = entries_of h' L'"
                          by (simp add: entries_AddKey_def snwprintf_S_eq)
                        ultimately show ?thesis using r ok' al' nd sec by auto
                      qed
                      then obtain K h' L' where
                        r: "IniCacheAddKeyAorW h Section None INSERT_LAST KN kns KV kvs False = Inr (K, h')"
                        and ok': "cache_ok h' c L'" and al': "Allocs h' = []"
                        and at': "section_at L' Section cur"
                        and e: "entries_AddKey ?es cur KN kns KV kvs = entries_of h' L'"
                        by blast
                      show ?thesis
                      proof (rule step)
                        show "?A = load_entries (entries_of h' L') cur P3 String"
                          unfolding ls using pre nbr cur kn kv e [unfolded cur] by simp
                        show "?H = IniCacheLoadFromMemory_loop h' (Some c) Section P3 String"
                          unfolding hs using pre nbr sec kn kv r [unfolded sec] by simp
                        show "case load_entries (entries_of h' L') cur P3 String of
                           Inl e \<Rightarrow> IniCacheLoadFromMemory_loop h' (Some c) Section P3 String = Inl e
                         | Inr es \<Rightarrow>
                             (\<exists>h'' L''. IniCacheLoadFromMemory_loop h' (Some c) Section P3 String = Inr h''
                                \<and> cache_ok h'' c L'' \<and> entries_of h'' L'' = es \<and> Allocs h'' = [])"
                          by (rule "1.hyps"(4) [OF Some c nz w P1 c1 nbr cn kn refl refl kv refl refl e ok' al' at'])
                      qed
                    qed
                  qed
                qed
              qed
            qed
          qed
        qed
      qed
    qed
  qed
qed

subsection \<open>Loading a rendering\<close>

lemma scan_append:
  "list_all P xs \<Longrightarrow> \<not> P c \<Longrightarrow> scan P (xs @ c # r) = Inr (length xs, c # r)"
  by (induction xs) simp_all

lemma scan_stop: "\<not> P c \<Longrightarrow> scan P (c # r) = Inr (0, c # r)"
  by simp

lemma c_str_take_append:
  "list_all (\<lambda>c. c \<noteq> NUL) n \<Longrightarrow> c_str (take (length n) (n @ r)) = n"
  by (simp add: c_str_def list_all_iff)

lemma names_distinct_snoc:
  "names_distinct (ns @ [n]) \<longleftrightarrow> names_distinct ns \<and> (\<forall>m\<in>set ns. wcsicmp m n \<noteq> 0)"
  by (auto simp: names_distinct_def wcsicmp_def image_iff)

lemma names_distinct_append_Cons:
  "names_distinct (ns @ n # ms) \<longleftrightarrow> names_distinct ((ns @ [n]) @ ms)"
  by simp

lemma names_distinct_prefix: "names_distinct (ns @ ms) \<Longrightarrow> names_distinct ns"
  by (simp add: names_distinct_def)

lemma load_entries_end: "load_entries es cur (Some (NUL # r)) String = Inr es"
  by (simp add: load_entries.simps [of es cur "Some (NUL # r)" String] deref_def)

lemma load_entries_section_line:
  assumes n: "section_name_ok n" and new: "\<forall>e\<in>set es. wcsicmp (fst e) n \<noteq> 0"
    and pre: "pre = [] \<or> pre = CRLF"
  shows "load_entries es cur (Some (pre @ ''['' @ n @ '']'' @ CRLF @ rest)) String
       = load_entries (es @ [(n, [])]) (Some (length es)) (Some rest) String"
proof -
  let ?N = "n @ CHR '']'' # CR # LF # rest"
  let ?P1 = "CHR ''['' # ?N"
  from n obtain a n' where nn: "n = a # n'" and a: "\<not> isspace a" "a \<noteq> NUL" "a \<noteq> CHR '']''"
    by (cases n) (auto simp: section_name_ok_def)
  from n have all: "list_all (\<lambda>c. c \<noteq> NUL \<and> c \<noteq> CHR '']'') n" by (simp add: section_name_ok_def)
  then have nul: "list_all (\<lambda>c. c \<noteq> NUL) n" by (simp add: list_all_iff)
  have "scan (\<lambda>c. c \<noteq> NUL \<and> isspace c) (pre @ ?P1) = Inr (length pre, ?P1)"
    using pre by (intro scan_append) (auto simp: CRLF_def CR_def LF_def NUL_def isspace_def)
  then have sw: "IniCacheSkipWhitespace (pre @ ?P1) = Inr (Some ?P1)"
    by (simp add: IniCacheSkipWhitespace_def deref_def NUL_def)
  have d0: "\<exists>c0. deref (pre @ ?P1) = Inr c0 \<and> c0 \<noteq> NUL"
    using pre by (auto simp: deref_def CRLF_def CR_def NUL_def)
  have d1: "deref ?P1 = Inr (CHR ''['')" by (simp add: deref_def)
  have s1: "scan (\<lambda>c. c \<noteq> NUL \<and> isspace c) ?N = Inr (0, ?N)"
    using a by (simp add: nn)
  have s2: "scan (\<lambda>c. c \<noteq> NUL \<and> c \<noteq> CHR '']'') ?N = Inr (length n, CHR '']'' # CR # LF # rest)"
    using all by (intro scan_append) simp_all
  have s3: "scan (\<lambda>c. c \<noteq> NUL \<and> c \<noteq> LF) (CR # LF # rest) = Inr (1, LF # rest)"
    by (simp add: CR_def LF_def NUL_def)
  have gs: "IniCacheGetSectionName (tl ?P1) = Inr (rest, Some ?N, length n)"
    by (simp add: IniCacheGetSectionName_def s1 s2 s3 del: scan.simps)
  have cs: "snwprintf_S ?N (length n) = n"
    using c_str_take_append [OF nul] by (simp add: snwprintf_S_def)
  from new have "first_index (\<lambda>e. wcsicmp (fst e) n = 0) es = None"
    by (simp add: first_index_None)
  then have add: "entries_AddSection es (Some ?N) (length n) = (Some (length es), es @ [(n, [])])"
    using n by (simp add: entries_AddSection_def cs entries_add_section_def section_name_ok_def)
  from d0 obtain c0 where c0: "deref (pre @ ?P1) = Inr c0" "c0 \<noteq> NUL" by blast
  show ?thesis
    unfolding load_entries.simps [of es cur "Some (pre @ ''['' @ n @ '']'' @ CRLF @ rest)" String]
    using c0 sw d1 gs add by (simp add: CRLF_def)
qed

lemma load_entries_key_line:
  assumes k: "key_name_ok k" and v: "value_ok String v"
    and new: "\<forall>kv\<in>set (snd (es ! i)). wcsicmp (fst kv) k \<noteq> 0"
  shows "load_entries es (Some i) (Some (render_key (k, v) @ rest)) String
       = load_entries (es[i := (fst (es ! i), snd (es ! i) @ [(k, v)])]) (Some i) (Some rest) String"
proof -
  let ?V = "v @ CR # LF # rest"
  let ?E = "CHR ''='' # ?V"
  let ?P = "k @ ?E"
  from k obtain a k' where kk: "k = a # k'"
    and a: "\<not> isspace a" "a \<noteq> NUL" "a \<noteq> CHR ''[''" "a \<noteq> CHR ''=''" "a \<noteq> CHR '';''"
    by (cases k) (auto simp: key_name_ok_def key_chars_ok_def)
  from k have all: "list_all (\<lambda>c. c \<noteq> NUL \<and> \<not> isspace c \<and> c \<noteq> CHR ''='' \<and> c \<noteq> CHR '';'') k"
    by (simp add: key_name_ok_def key_chars_ok_def)
  then have nul: "list_all (\<lambda>c. c \<noteq> NUL) k" by (simp add: list_all_iff)
  from v obtain b v' where vv: "v = b # v'"
    and b: "\<not> isspace b" "b \<noteq> NUL" "\<not> (b = CHR 0x22 \<and> String)"
    by (cases v) (auto simp: value_ok_def)
  from v have allv: "list_all (\<lambda>c. c \<noteq> NUL \<and> c \<noteq> CR \<and> c \<noteq> CHR '';'') v"
    by (simp add: value_ok_def)
  then have nulv: "list_all (\<lambda>c. c \<noteq> NUL) v" by (simp add: list_all_iff)
  have d0: "deref ?P = Inr a" by (simp add: kk deref_def)
  have sw: "IniCacheSkipWhitespace ?P = Inr (Some ?P)"
    using a by (simp add: kk IniCacheSkipWhitespace_def deref_def)
  have s1: "scan (\<lambda>c. isspace c \<or> c = LF \<or> c = CR) ?P = Inr (0, ?P)"
    using a by (simp add: kk isspace_def LF_def CR_def)
  have s2: "scan (\<lambda>c. c \<noteq> NUL \<and> \<not> isspace c \<and> c \<noteq> CHR ''='' \<and> c \<noteq> CHR '';'') ?P
      = Inr (length k, ?E)"
    using all by (intro scan_append) simp_all
  have gk: "IniCacheGetKeyName ?P = Inr (?E, Some ?P, length k)"
    unfolding IniCacheGetKeyName_def IniCacheGetKeyName_loop.simps [of ?P None 0]
    using d0 a s1 s2 by (simp add: deref_def)
  have s3: "scan (\<lambda>c. c \<noteq> NUL \<and> isspace c) ?E = Inr (0, ?E)"
    by (simp add: isspace_def)
  have s4: "scan (\<lambda>c. c \<noteq> NUL \<and> isspace c) ?V = Inr (0, ?V)"
    using b by (simp add: vv)
  have s5: "scan (\<lambda>c. c \<noteq> NUL \<and> c \<noteq> CR \<and> c \<noteq> CHR '';'') ?V = Inr (length v, CR # LF # rest)"
    using allv by (intro scan_append) simp_all
  have nl: "skip_to_next_line (CR # LF # rest) (Some ?V) (length v) = Inr (Some rest, Some ?V, length v)"
    by (simp add: skip_to_next_line_def deref_def Let_def)
  have de: "deref ?E = Inr (CHR ''='')" by (simp add: deref_def)
  have dv: "deref ?V = Inr b" by (simp add: vv deref_def)
  have gv: "IniCacheGetKeyValue ?E String = Inr (Some rest, Some ?V, length v)"
    using b by (cases String; cases "b = CHR 0x22")
      (simp_all add: IniCacheGetKeyValue_def s3 s4 s5 nl de dv del: scan.simps)
  have ck: "snwprintf_S ?P (length k) = k"
    using c_str_take_append [OF nul] by (simp add: snwprintf_S_def)
  have cv: "snwprintf_S ?V (length v) = v"
    using c_str_take_append [OF nulv] by (simp add: snwprintf_S_def)
  from new have "first_index (\<lambda>kv. wcsicmp (fst kv) k = 0) (snd (es ! i)) = None"
    by (simp add: first_index_None)
  then have add: "entries_AddKey es (Some i) (Some ?P) (length k) (Some ?V) (length v)
      = es[i := (fst (es ! i), snd (es ! i) @ [(k, v)])]"
    using k v by (simp add: entries_AddKey_def ck cv entries_add_key_def key_name_ok_def key_chars_ok_def value_ok_def)
  show ?thesis
    unfolding load_entries.simps [of es "Some i" "Some (render_key (k, v) @ rest)" String]
    using d0 a sw gk gv add by (simp add: render_key_def CRLF_def)
qed

lemma load_entries_key_lines:
  assumes "list_all (\<lambda>kv. key_name_ok (fst kv) \<and> value_ok String (snd kv)) ks"
    and "names_distinct (map fst (snd (es ! i) @ ks))" and "i < length es"
  shows "load_entries es (Some i) (Some (concat (map render_key ks) @ rest)) String
       = load_entries (es[i := (fst (es ! i), snd (es ! i) @ ks)]) (Some i) (Some rest) String"
  using assms
proof (induction ks arbitrary: es)
  case Nil
  then show ?case by simp
next
  case (Cons kv ks)
  obtain k v where kv: "kv = (k, v)" by (cases kv)
  let ?es = "es[i := (fst (es ! i), snd (es ! i) @ [(k, v)])]"
  from Cons.prems(2) have nd: "names_distinct ((map fst (snd (es ! i)) @ [k]) @ map fst ks)"
    by (simp add: kv)
  then have "names_distinct (map fst (snd (es ! i)) @ [k])" by (rule names_distinct_prefix)
  then have new: "\<forall>kv\<in>set (snd (es ! i)). wcsicmp (fst kv) k \<noteq> 0"
    by (simp add: names_distinct_snoc)
  from Cons.prems(1) have ok: "key_name_ok k" "value_ok String v" by (simp_all add: kv)
  have 1: "load_entries es (Some i) (Some (concat (map render_key (kv # ks)) @ rest)) String
      = load_entries ?es (Some i) (Some (concat (map render_key ks) @ rest)) String"
    using load_entries_key_line [OF ok new, of "concat (map render_key ks) @ rest"]
    by (simp add: kv)
  have at: "?es ! i = (fst (es ! i), snd (es ! i) @ [(k, v)])"
    using Cons.prems(3) by simp
  have 2: "load_entries ?es (Some i) (Some (concat (map render_key ks) @ rest)) String
      = load_entries (?es[i := (fst (?es ! i), snd (?es ! i) @ ks)]) (Some i) (Some rest) String"
  proof (rule Cons.IH)
    from Cons.prems(1) show "list_all (\<lambda>kv. key_name_ok (fst kv) \<and> value_ok String (snd kv)) ks"
      by simp
    from nd show "names_distinct (map fst (snd (?es ! i) @ ks))" by (simp add: at)
    from Cons.prems(3) show "i < length ?es" by simp
  qed
  show ?case unfolding 1 2 by (simp add: at kv)
qed

lemma load_entries_render:
  assumes "reloadable String (es0 @ es)" and "es \<noteq> []" and "pre = [] \<or> pre = CRLF"
  shows "load_entries es0 cur (Some (pre @ render_entries es @ [NUL])) String = Inr (es0 @ es)"
  using assms
proof (induction es arbitrary: es0 cur pre)
  case Nil
  then show ?case by simp
next
  case (Cons e es)
  obtain n ks where e: "e = (n, ks)" by (cases e)
  let ?X = "(if es = [] then [] else CRLF @ render_entries es) @ [NUL]"
  let ?es1 = "es0 @ [(n, [])]"
  from Cons.prems(1) have nd: "names_distinct ((map fst es0 @ [n]) @ map fst es)"
    and n: "section_name_ok n" and kd: "names_distinct (map fst ks)"
    and ks: "list_all (\<lambda>kv. key_name_ok (fst kv) \<and> value_ok String (snd kv)) ks"
    by (simp_all add: reloadable_def e)
  from nd have "names_distinct (map fst es0 @ [n])" by (rule names_distinct_prefix)
  then have new: "\<forall>e\<in>set es0. wcsicmp (fst e) n \<noteq> 0" by (simp add: names_distinct_snoc)
  have text_eq: "pre @ render_entries (e # es) @ [NUL]
      = pre @ ''['' @ n @ '']'' @ CRLF @ concat (map render_key ks) @ ?X"
    by (simp add: render_entries_Cons render_section_def e)
  have 1: "load_entries es0 cur (Some (pre @ render_entries (e # es) @ [NUL])) String
      = load_entries ?es1 (Some (length es0)) (Some (concat (map render_key ks) @ ?X)) String"
    unfolding text_eq using n new Cons.prems(3) by (rule load_entries_section_line)
  have 2: "load_entries ?es1 (Some (length es0)) (Some (concat (map render_key ks) @ ?X)) String
      = load_entries (?es1[length es0 := (fst (?es1 ! length es0), snd (?es1 ! length es0) @ ks)])
          (Some (length es0)) (Some ?X) String"
    using ks kd by (intro load_entries_key_lines) simp_all
  have 3: "?es1[length es0 := (fst (?es1 ! length es0), snd (?es1 ! length es0) @ ks)] = es0 @ [e]"
    by (simp add: e)
  show ?case
  proof (cases "es = []")
    case True
    then show ?thesis unfolding 1 2 3 by (simp add: load_entries_end)
  next
    case False
    from Cons.prems(1) have "reloadable String ((es0 @ [e]) @ es)" by simp
    from Cons.IH [OF this False, of CRLF "Some (length es0)"] False
    show ?thesis unfolding 1 2 3 by simp
  qed
qed

lemma loaded_ok_reloadable:
  assumes "loaded_ok String es" and "plain_entries String es"
  shows "reloadable String es"
proof -
  have "key_name_ok (fst kv) \<and> value_ok String (snd kv)"
    if "key_chars_ok (fst kv) \<and> (String \<or> value_ok False (snd kv))"
      and "hd (fst kv) \<noteq> CHR ''['' \<and> (String \<longrightarrow> value_ok True (snd kv))"
    for kv :: "string \<times> string"
    using that by (cases String) (auto simp: key_name_ok_def)
  with assms show ?thesis
    by (auto simp: loaded_ok_def plain_entries_def reloadable_def list_all_iff)
qed

subsection \<open>What every load establishes\<close>

lemma scan_take:
  "scan P s = Inr (n, r) \<Longrightarrow>
   n \<le> length s \<and> list_all P (take n s) \<and> r \<noteq> [] \<and> \<not> P (hd r)"
proof (induction s arbitrary: n r)
  case Nil
  then show ?case by simp
next
  case (Cons c cs)
  show ?case
  proof (cases "P c")
    case False
    with Cons.prems show ?thesis by auto
  next
    case True
    with Cons.prems obtain m where m: "scan P cs = Inr (m, r)" "n = Suc m"
      by (auto split: sum.splits)
    from Cons.IH [OF m(1)] m(2) True show ?thesis by simp
  qed
qed

lemma c_str_NUL_free: "list_all (\<lambda>c. c \<noteq> NUL) s \<Longrightarrow> c_str s = s"
  by (simp add: c_str_def list_all_iff)

lemma IniCacheGetSectionName_name:
  assumes "IniCacheGetSectionName p = Inr (P2, N, n)" and "0 < n"
  shows "\<exists>Nm. N = Some Nm \<and> section_name_ok (snwprintf_S Nm n)"
proof -
  from assms(1) obtain n0 Ptr1 Ptr2 where
    s1: "scan (\<lambda>c. c \<noteq> NUL \<and> isspace c) p = Inr (n0, Ptr1)"
    and s2: "scan (\<lambda>c. c \<noteq> NUL \<and> c \<noteq> CHR '']'') Ptr1 = Inr (n, Ptr2)"
    and N: "N = Some Ptr1"
    by (auto simp: IniCacheGetSectionName_def bindF_Inr_iff)
  from scan_take [OF s1] have h: "Ptr1 \<noteq> []" "\<not> (hd Ptr1 \<noteq> NUL \<and> isspace (hd Ptr1))" by simp_all
  from scan_take [OF s2] have t: "n \<le> length Ptr1"
    "list_all (\<lambda>c. c \<noteq> NUL \<and> c \<noteq> CHR '']'') (take n Ptr1)" by simp_all
  from t(2) have "list_all (\<lambda>c. c \<noteq> NUL) (take n Ptr1)" by (simp add: list_all_iff)
  then have c: "snwprintf_S Ptr1 n = take n Ptr1" by (simp add: snwprintf_S_def c_str_NUL_free)
  from h(1) assms(2) have ne: "take n Ptr1 \<noteq> []" and hd: "hd (take n Ptr1) = hd Ptr1"
    by (cases Ptr1; cases n; simp)+
  from ne t(2) hd have "hd Ptr1 \<noteq> NUL" by (cases "take n Ptr1") auto
  with h(2) have "\<not> isspace (hd Ptr1)" by simp
  with ne hd t(2) have "section_name_ok (take n Ptr1)" by (simp add: section_name_ok_def)
  with N c show ?thesis by simp
qed

lemma IniCacheGetKeyName_loop_name:
  "IniCacheGetKeyName_loop Ptr NamePtr NameSize = Inr (P2, N, n) \<Longrightarrow> NameSize = 0 \<Longrightarrow> 0 < n \<Longrightarrow>
   \<exists>Nm. N = Some Nm \<and> key_chars_ok (snwprintf_S Nm n)"
proof (induction Ptr NamePtr NameSize rule: IniCacheGetKeyName_loop.induct)
  case (1 Ptr NamePtr NameSize)
  note eq = "1.prems"(1) [unfolded IniCacheGetKeyName_loop.simps [of Ptr NamePtr NameSize]]
  from eq "1.prems"(2,3) obtain c where c: "deref Ptr = Inr c" "c \<noteq> NUL"
    by (cases "deref Ptr") (auto split: if_splits)
  from eq c "1.prems"(3) obtain n1 Ptr1 where
    s1: "scan (\<lambda>c. isspace c \<or> c = LF \<or> c = CR) Ptr = Inr (n1, Ptr1)"
    by (cases "scan (\<lambda>c. isspace c \<or> c = LF \<or> c = CR) Ptr") auto
  from eq c s1 "1.prems"(3) obtain c1 where c1: "deref Ptr1 = Inr c1" "c1 \<noteq> NUL"
    by (cases "deref Ptr1") (auto split: if_splits)
  from eq c s1 c1 obtain Size Ptr2 where
    s2: "scan (\<lambda>c. c \<noteq> NUL \<and> \<not> isspace c \<and> c \<noteq> CHR ''='' \<and> c \<noteq> CHR '';'') Ptr1 = Inr (Size, Ptr2)"
    by (cases "scan (\<lambda>c. c \<noteq> NUL \<and> \<not> isspace c \<and> c \<noteq> CHR ''='' \<and> c \<noteq> CHR '';'') Ptr1") auto
  from eq c s1 c1 s2 obtain c2 where c2: "deref Ptr2 = Inr c2"
    by (cases "deref Ptr2") auto
  show ?case
  proof (cases "c2 = CHR '';''")
    case True
    from eq c s1 c1 s2 c2 True obtain n3 Ptr3 where
      s3: "scan (\<lambda>c. c \<noteq> NUL \<and> c \<noteq> CR \<and> c \<noteq> LF) Ptr2 = Inr (n3, Ptr3)"
      and r: "IniCacheGetKeyName_loop Ptr3 (Some Ptr1) 0 = Inr (P2, N, n)"
      by (cases "scan (\<lambda>c. c \<noteq> NUL \<and> c \<noteq> CR \<and> c \<noteq> LF) Ptr2") auto
    show ?thesis
      by (rule "1.IH" [OF c(1) c(2) s1 refl c1(1) c1(2) s2 refl c2 True s3 refl r refl "1.prems"(3)])
  next
    case False
    with eq c s1 c1 s2 c2 have N: "N = Some Ptr1" and n: "n = Size" by auto
    from scan_take [OF s2] have t:
      "list_all (\<lambda>c. c \<noteq> NUL \<and> \<not> isspace c \<and> c \<noteq> CHR ''='' \<and> c \<noteq> CHR '';'') (take Size Ptr1)"
      and r: "Ptr2 \<noteq> []" "Size \<le> length Ptr1" by simp_all
    from t have "list_all (\<lambda>c. c \<noteq> NUL) (take Size Ptr1)" by (simp add: list_all_iff)
    then have cs: "snwprintf_S Ptr1 Size = take Size Ptr1"
      by (simp add: snwprintf_S_def c_str_NUL_free)
    from c1 "1.prems"(3) n have "take Size Ptr1 \<noteq> []" by (cases Ptr1) (auto simp: deref_def)
    with t cs N n show ?thesis by (simp add: key_chars_ok_def)
  qed
qed

lemma IniCacheGetKeyValue_value:
  assumes "IniCacheGetKeyValue P False = Inr (P3, D, d)" and "0 < d"
  shows "\<exists>Dt. D = Some Dt \<and> value_ok False (snwprintf_S Dt d)"
proof -
  from assms obtain n1 Ptr1 c n2 Ptr2 c2 Ptr3 where
    s2: "scan (\<lambda>c. c \<noteq> NUL \<and> isspace c) (tl Ptr1) = Inr (n2, Ptr2)"
    and s3: "scan (\<lambda>c. c \<noteq> NUL \<and> c \<noteq> CR \<and> c \<noteq> CHR '';'') Ptr2 = Inr (d, Ptr3)"
    and D: "D = Some Ptr2"
    by (auto simp: IniCacheGetKeyValue_def bindF_Inr_iff skip_to_next_line_def Let_def
          split: if_splits)
  from scan_take [OF s2] have h: "Ptr2 \<noteq> []" "\<not> (hd Ptr2 \<noteq> NUL \<and> isspace (hd Ptr2))" by simp_all
  from scan_take [OF s3] have t: "d \<le> length Ptr2"
    "list_all (\<lambda>c. c \<noteq> NUL \<and> c \<noteq> CR \<and> c \<noteq> CHR '';'') (take d Ptr2)" by simp_all
  from t(2) have "list_all (\<lambda>c. c \<noteq> NUL) (take d Ptr2)" by (simp add: list_all_iff)
  then have c: "snwprintf_S Ptr2 d = take d Ptr2" by (simp add: snwprintf_S_def c_str_NUL_free)
  from h(1) assms(2) have ne: "take d Ptr2 \<noteq> []" and hd: "hd (take d Ptr2) = hd Ptr2"
    by (cases Ptr2; cases d; simp)+
  from ne t(2) hd have "hd Ptr2 \<noteq> NUL" by (cases "take d Ptr2") auto
  with h(2) have "\<not> isspace (hd Ptr2)" by simp
  with ne hd t(2) have "value_ok False (take d Ptr2)" by (simp add: value_ok_def)
  with D c show ?thesis by simp
qed

lemma names_distinct_Nil [simp]: "names_distinct []"
  by (simp add: names_distinct_def)

lemma entries_AddSection_loaded_ok:
  assumes "loaded_ok String es" and "IniCacheGetSectionName p = Inr (P2, N, n)"
    and "entries_AddSection es N n = (cur', es')"
  shows "loaded_ok String es'"
proof (cases "N = None \<or> n = 0")
  case True
  with assms(1,3) show ?thesis by (auto simp: entries_AddSection_def split: option.splits)
next
  case False
  then have n: "0 < n" by simp
  from IniCacheGetSectionName_name [OF assms(2) n] obtain Nm where
    N: "N = Some Nm" and ok: "section_name_ok (snwprintf_S Nm n)" by blast
  let ?name = "snwprintf_S Nm n"
  show ?thesis
  proof (cases "first_index (\<lambda>e. wcsicmp (fst e) ?name = 0) es")
    case (Some i)
    with assms(1,3) N n show ?thesis
      by (simp add: entries_AddSection_def entries_add_section_def)
  next
    case None
    with assms(3) N n have es': "es' = es @ [(?name, [])]"
      by (simp add: entries_AddSection_def entries_add_section_def)
    from None have "\<forall>m\<in>set (map fst es). wcsicmp m ?name \<noteq> 0"
      by (simp add: first_index_None)
    with assms(1) have "names_distinct (map fst es @ [?name])"
      unfolding names_distinct_snoc by (simp add: loaded_ok_def)
    with assms(1) ok show ?thesis by (simp add: es' loaded_ok_def)
  qed
qed

lemma list_all_update: "list_all P xs \<Longrightarrow> P x \<Longrightarrow> list_all P (xs[i := x])"
  using set_update_subset_insert [of xs i x] by (auto simp: list_all_iff)

lemma map_fst_update: "i < length xs \<Longrightarrow> map fst (xs[i := (fst (xs ! i), y)]) = map fst xs"
  by (simp add: map_update list_update_same_conv)

lemma entries_add_key_loaded_ok:
  assumes ok: "loaded_ok String es" and k: "key_chars_ok k" and v: "String \<or> value_ok False v"
  shows "loaded_ok String (entries_add_key es i k v)"
proof (cases "i < length es")
  case False
  then have "es[i := x] = es" for x by (simp add: list_update_beyond)
  with ok show ?thesis by (simp add: entries_add_key_def)
next
  case True
  let ?Q = "\<lambda>kv. key_chars_ok (fst kv) \<and> (String \<or> value_ok False (snd kv))"
  let ?ks = "snd (es ! i)"
  let ?ks' = "case first_index (\<lambda>kv. wcsicmp (fst kv) k = 0) ?ks of
                None \<Rightarrow> ?ks @ [(k, v)]
              | Some j \<Rightarrow> ?ks[j := (fst (?ks ! j), v)]"
  from ok True have old: "section_name_ok (fst (es ! i))" "names_distinct (map fst ?ks)"
    "list_all ?Q ?ks"
    by (simp_all add: loaded_ok_def list_all_length)
  have new: "names_distinct (map fst ?ks') \<and> list_all ?Q ?ks'"
  proof (cases "first_index (\<lambda>kv. wcsicmp (fst kv) k = 0) ?ks")
    case None
    then have "\<forall>m\<in>set (map fst ?ks). wcsicmp m k \<noteq> 0" by (simp add: first_index_None)
    with old(2) have "names_distinct (map fst ?ks @ [k])" unfolding names_distinct_snoc by simp
    with None old(3) k v show ?thesis by simp
  next
    case (Some j)
    then have j: "j < length ?ks" by (auto dest: first_index_Some)
    with old(3) have "key_chars_ok (fst (?ks ! j))" by (simp add: list_all_length)
    with v have "?Q (fst (?ks ! j), v)" by simp
    with old(3) have "list_all ?Q (?ks[j := (fst (?ks ! j), v)])" by (rule list_all_update)
    with Some old(2) j show ?thesis by (simp add: map_fst_update)
  qed
  have e: "entries_add_key es i k v = es[i := (fst (es ! i), ?ks')]"
    by (simp add: entries_add_key_def)
  from ok have "names_distinct (map fst es)" by (simp add: loaded_ok_def)
  moreover from ok have "list_all (\<lambda>e. section_name_ok (fst e) \<and> names_distinct (map fst (snd e))
      \<and> list_all ?Q (snd e)) (es[i := (fst (es ! i), ?ks')])"
    using old(1) new by (intro list_all_update) (simp_all add: loaded_ok_def)
  ultimately show ?thesis
    unfolding e loaded_ok_def using True by (simp add: map_fst_update)
qed

lemma entries_AddKey_loaded_ok:
  assumes "loaded_ok String es" and "IniCacheGetKeyName P1 = Inr (P2, KN, kns)"
    and "IniCacheGetKeyValue P2 String = Inr (P3, KV, kvs)"
  shows "loaded_ok String (entries_AddKey es cur KN kns KV kvs)"
proof (cases "cur = None \<or> KN = None \<or> KV = None \<or> kns = 0 \<or> kvs = 0")
  case True
  with assms(1) show ?thesis by (auto simp: entries_AddKey_def split: option.splits)
next
  case False
  then obtain i where cur: "cur = Some i" and n: "0 < kns" "0 < kvs" by auto
  from assms(2) n(1) obtain Nm where KN: "KN = Some Nm" and k: "key_chars_ok (snwprintf_S Nm kns)"
    using IniCacheGetKeyName_loop_name [of P1 None 0 P2 KN kns]
    by (auto simp: IniCacheGetKeyName_def)
  from False obtain Dt where KV: "KV = Some Dt" by auto
  have v: "String \<or> value_ok False (snwprintf_S Dt kvs)"
  proof (cases String)
    case True
    then show ?thesis by simp
  next
    case False
    with assms(3) n(2) KV show ?thesis
      using IniCacheGetKeyValue_value [of P2 P3 KV kvs] by auto
  qed
  from entries_add_key_loaded_ok [OF assms(1) k v, of i] cur KN KV n show ?thesis
    by (simp add: entries_AddKey_def)
qed

lemma load_entries_loaded_ok:
  "load_entries es cur Ptr String = Inr es' \<Longrightarrow> loaded_ok String es \<Longrightarrow> loaded_ok String es'"
proof (induction es cur Ptr String rule: load_entries.induct)
  case (1 es cur Ptr String)
  note eq = "1.prems"(1) [unfolded load_entries.simps [of es cur Ptr String]]
  note ok = "1.prems"(2)
  show ?case
  proof (cases Ptr)
    case None
    with eq ok show ?thesis by simp
  next
    case (Some P)
    from eq Some obtain c where c: "deref P = Inr c" by (cases "deref P") auto
    show ?thesis
    proof (cases "c = NUL")
      case True
      with eq Some c ok show ?thesis by simp
    next
      case nz: False
      from eq Some c nz obtain w where w: "IniCacheSkipWhitespace P = Inr w"
        by (cases "IniCacheSkipWhitespace P") auto
      show ?thesis
      proof (cases w)
        case None
        with eq Some c nz w ok show ?thesis by simp
      next
        case P1: (Some P1)
        from eq Some c nz w P1 obtain c1 where c1: "deref P1 = Inr c1"
          by (cases "deref P1") auto
        note pre = Some c nz w P1 c1
        show ?thesis
        proof (cases "c1 = CHR ''[''")
          case br: True
          from eq pre br obtain P2 N n where g: "IniCacheGetSectionName (tl P1) = Inr (P2, N, n)"
            by (cases "IniCacheGetSectionName (tl P1)") auto
          obtain cur' es1 where a: "entries_AddSection es N n = (cur', es1)"
            by (cases "entries_AddSection es N n")
          from ok g a have ok1: "loaded_ok String es1" by (rule entries_AddSection_loaded_ok)
          show ?thesis
          proof (cases cur')
            case None
            from eq pre br g a None obtain P3 where s: "IniCacheSkipToNextSection P2 = Inr P3"
              and r: "load_entries es1 None P3 String = Inr es'"
              by (cases "IniCacheSkipToNextSection P2") auto
            show ?thesis
              by (rule "1.IH"(1) [OF Some c nz w P1 c1 br g refl refl a [unfolded None, symmetric]
                    refl s r ok1])
          next
            case (Some i)
            from eq pre br g a Some have r: "load_entries es1 (Some i) (Some P2) String = Inr es'"
              by simp
            show ?thesis
              by (rule "1.IH"(2) [OF \<open>Ptr = Some P\<close> c nz w P1 c1 br g refl refl
                    a [unfolded Some, symmetric] refl r ok1])
          qed
        next
          case nbr: False
          show ?thesis
          proof (cases "cur = None")
            case True
            from eq pre nbr True obtain P2 where s: "IniCacheSkipToNextSection P1 = Inr P2"
              and r: "load_entries es None P2 String = Inr es'"
              by (cases "IniCacheSkipToNextSection P1") auto
            show ?thesis
              by (rule "1.IH"(3) [OF Some c nz w P1 c1 nbr True s r ok])
          next
            case False
            from eq pre nbr False obtain P2 KN kns where
              kn: "IniCacheGetKeyName P1 = Inr (P2, KN, kns)"
              by (cases "IniCacheGetKeyName P1") auto
            from eq pre nbr False kn obtain P3 KV kvs where
              kv: "IniCacheGetKeyValue P2 String = Inr (P3, KV, kvs)"
              by (cases "IniCacheGetKeyValue P2 String") auto
            from eq pre nbr False kn kv have
              r: "load_entries (entries_AddKey es cur KN kns KV kvs) cur P3 String = Inr es'"
              by simp
            from ok kn kv have ok1: "loaded_ok String (entries_AddKey es cur KN kns KV kvs)"
              by (rule entries_AddKey_loaded_ok)
            show ?thesis
              by (rule "1.IH"(4) [OF Some c nz w P1 c1 nbr False kn refl refl kv refl refl r ok1])
          qed
        qed
      qed
    qed
  qed
qed

subsection \<open>Loading, saving and loading again\<close>

lemma NT_SUCCESS_STATUS_SUCCESS: "NT_SUCCESS STATUS_SUCCESS"
  by (simp add: NT_SUCCESS_def STATUS_SUCCESS_def)

lemma IniCacheLoadFromMemory_entries:
  assumes "Allocs h = []"
  shows "case load_entries [] None (Some FileBuffer) String of
           Inl e \<Rightarrow> IniCacheLoadFromMemory h FileBuffer FileLength String = Inl e
         | Inr es \<Rightarrow>
             (\<exists>h' L. IniCacheLoadFromMemory h FileBuffer FileLength String
                        = Inr (STATUS_SUCCESS, Some (length (Caches h)), h')
                \<and> cache_ok h' (length (Caches h)) L \<and> entries_of h' L = es \<and> Allocs h' = [])"
proof -
  let ?c = "length (Caches h)"
  let ?h2 = "h\<lparr>Caches := Caches h @ [\<lparr>FirstSection = None, LastSection = None\<rparr>]\<rparr>"
  have ok: "cache_ok ?h2 ?c []"
    by (simp add: cache_ok_def section_path_def last_of_def)
  have al: "Allocs ?h2 = []" using assms by simp
  have at: "section_at [] None None" by (simp add: section_at_def)
  have unf: "IniCacheLoadFromMemory h FileBuffer FileLength String
      = bindF (IniCacheLoadFromMemory_loop ?h2 (Some ?c) None (Some FileBuffer) String)
          (\<lambda>h3. Inr (STATUS_SUCCESS, Some ?c, h3))"
    using assms by (simp add: IniCacheLoadFromMemory_def RtlAllocateHeap_no_failures Let_def)
  from IniCacheLoadFromMemory_loop_sim [OF ok al at, of "Some FileBuffer" String]
  show ?thesis
    unfolding unf by (cases "load_entries [] None (Some FileBuffer) String") auto
qed

lemma IniCacheSaveByHandle_text:
  assumes "cache_ok h c L" and "Allocs h = []"
  shows "IniCacheSaveByHandle h (Some c) NtWriteFile
           = Inr (if NT_SUCCESS (NtWriteFile (render_entries (entries_of h L)))
                  then STATUS_SUCCESS else NtWriteFile (render_entries (entries_of h L)),
                  Some (render_entries (entries_of h L)), h)"
proof -
  let ?text = "render_entries (entries_of h L)"
  from assms(2) have a1: "RtlAllocateHeap h = (True, h)" by (rule RtlAllocateHeap_no_failures)
  from assms(1) have c: "c < length (Caches h)"
    and sp: "path (\<lambda>a. Section_Next (Sections h ! a)) (length (Sections h))
               (FirstSection (Caches h ! c)) (map fst L)"
    and secs: "list_all (section_ok h) L"
    by (simp_all add: cache_ok_def section_path_def)
  from sp have len: "length L \<le> Suc (length (Sections h))"
    using path_length [OF sp] by simp
  have size: "BufferSize_sections (Suc (length (Sections h))) h (FirstSection (Caches h ! c)) 0
      = Inr (length ?text)"
    using BufferSize_sections_path [OF sp secs len, of 0] by simp
  have fill: "fill_sections (Suc (length (Sections h))) h (FirstSection (Caches h ! c)) []
      = Inr ?text"
    using fill_sections_path [OF sp secs, of "Suc (length (Sections h))" "[]"] len by simp
  show ?thesis
    using c size a1 fill
    by (simp add: IniCacheSaveByHandle_def get_cache_def Let_def)
qed

lemma load_entries_render_all:
  assumes "reloadable String es"
  shows "load_entries [] cur (Some (render_entries es @ [NUL])) String = Inr es"
proof (cases "es = []")
  case True
  then show ?thesis by (simp add: load_entries_end)
next
  case False
  from load_entries_render [of String "[]" es "[]" cur] assms False show ?thesis by simp
qed

text \<open>
  A comment line makes \<^verbatim>\<open>IniCacheGetKeyName\<close> take the next line for the key name, also
  when that line is a section header; the key \<^verbatim>\<open>[B]\<close> it stores is written as the line
  \<^verbatim>\<open>[B]=1\<close>, which is read back as the header of a section \<^verbatim>\<open>B\<close>.
\<close>

lemma bracket_key_is_not_read_back:
  "bindF (IniCacheLoadFromMemory empty_heap
            (''[A]'' @ CRLF @ '';c'' @ CRLF @ ''[B]'' @ CRLF @ ''=1'' @ CRLF @ [NUL]) 18 False)
     (\<lambda>(Status, Cache, h1).
   bindF (cache_entries h1 Cache) (\<lambda>es1.
   bindF (IniCacheSaveByHandle h1 Cache (\<lambda>_. STATUS_SUCCESS)) (\<lambda>(Status, Written, h2).
   case Written of
     None \<Rightarrow> Inr (es1, None, [])
   | Some Text \<Rightarrow>
       bindF (IniCacheLoadFromMemory h2 (Text @ [NUL]) (length Text) False) (\<lambda>(Status, Cache', h3).
       bindF (cache_entries h3 Cache') (\<lambda>es3. Inr (es1, Some Text, es3))))))
   = Inr ([(''A'', [(''[B]'', ''1'')])],
          Some (''[A]'' @ CRLF @ ''[B]=1'' @ CRLF),
          [(''A'', []), (''B'', [])])"
  by code_simp

subsection \<open>Adding a key anywhere in a section\<close>



lemma insert_at_simps [simp]:
  "insert_at 0 x xs = x # xs"
  "insert_at (Suc n) x (y # ys) = y # insert_at n x ys"
  "insert_at (length xs) x xs = xs @ [x]"
  by (simp_all add: insert_at_def)

lemma set_insert_at [simp]: "set (insert_at n x xs) = insert x (set xs)"
proof -
  have "set (take n xs) \<union> set (drop n xs) = set xs"
    by (metis append_take_drop_id set_append)
  then show ?thesis by (auto simp: insert_at_def)
qed





















section \<open>Properties of the program\<close>

subsection \<open>Error handling of the loader\<close>

text \<open>
  Claim C2. A key line that cannot be parsed costs only that entry: the loader goes on
  with the rest of the buffer. The code does not do that when the line has no \<^verbatim>\<open>=\<close>:
  \<^verbatim>\<open>IniCacheGetKeyValue\<close> returns a null pointer, the loader stores it in \<^verbatim>\<open>Ptr\<close>, and the
  loop condition \<^verbatim>\<open>Ptr != NULL\<close> ends the parse. In the buffer below the section
  \<^verbatim>\<open>[B]\<close> and its key \<^verbatim>\<open>y=2\<close> follow the bad line and are never loaded.
\<close>

theorem load_stops_at_key_without_equals:
  "bindF (IniCacheLoadFromMemory empty_heap
            (''[A]'' @ CRLF @ ''badkey'' @ CRLF @ ''[B]'' @ CRLF @ ''y=2'' @ CRLF @ [NUL]) 22 False)
     (\<lambda>(Status, Cache, h). cache_entries h Cache)
   = Inr [(''A'', [])]"
  by code_simp

text \<open>
  Claim C8. The loader returns \<^verbatim>\<open>STATUS_SUCCESS\<close> and a cache for every buffer the I/O
  layer supplies, also for one without any usable entry. For the three bytes \<^verbatim>\<open>abc\<close> and
  their terminator the code does not return at all: \<^verbatim>\<open>IniCacheSkipToNextSection\<close> steps
  over the terminator (the unconditional \<^verbatim>\<open>Ptr++\<close> after its inner loop) and reads the
  byte behind the buffer.
\<close>

theorem load_unterminated_last_line:
  "IniCacheLoadFromMemory empty_heap (''abc'' @ [NUL]) 3 False = Inl ReadPastEnd"
  by code_simp

text \<open>
  Claim C9. \<^verbatim>\<open>IniCacheGetKeyValue\<close> reads no character behind the terminator of its
  buffer. In quoted mode the loop \<^verbatim>\<open>while (*Ptr != '"')\<close> does not test for the
  terminator: on a value whose closing quote is missing it runs out of the buffer.
\<close>

theorem IniCacheGetKeyValue_unterminated_quote:
  "IniCacheGetKeyValue (''='' @ [CHR 0x22] @ ''abc'' @ [NUL]) True = Inl ReadPastEnd"
  by code_simp

subsection \<open>Mutations that fail\<close>

text \<open>
  Claim C7. A mutation that fails changes nothing. Whenever \<^verbatim>\<open>IniCacheAddKeyAorW\<close>,
  \<^verbatim>\<open>IniInsertKey\<close> or \<^verbatim>\<open>IniAddKey\<close> returns a null key, for whatever reason (an
  allocation that fails while an existing key is updated is one), the keys, the sections
  and the cache headers are those from before the call; and \<^verbatim>\<open>IniInsertKey\<close> and
  \<^verbatim>\<open>IniAddKey\<close> return a null key when the name or the value is null or empty.
\<close>

theorem failed_mutation_changes_nothing:
  "(IniCacheAddKeyAorW h Section AnchorKey InsertionType Name NameLength Data DataLength IsUnicode
      = Inr (None, h1) \<longrightarrow> unchanged_store h h1)
   \<and> (IniInsertKey h Section' AnchorKey' InsertionType' Name' Data' = Inr (None, h2)
        \<longrightarrow> unchanged_store h h2)
   \<and> (IniAddKey h Section' Name' Data' = Inr (None, h3) \<longrightarrow> unchanged_store h h3)
   \<and> ((case (Name', Data') of
          (Some N, Some D) \<Rightarrow> c_str N = [] \<or> c_str D = []
        | _ \<Rightarrow> True)
        \<longrightarrow> IniInsertKey h Section' AnchorKey' InsertionType' Name' Data' = Inr (None, h)
          \<and> IniAddKey h Section' Name' Data' = Inr (None, h))"
proof (intro conjI impI)
  assume "IniCacheAddKeyAorW h Section AnchorKey InsertionType Name NameLength Data DataLength IsUnicode
         = Inr (None, h1)"
  then show "unchanged_store h h1"
    by (auto simp: unchanged_store_def dest: IniCacheAddKeyAorW_failure)
next
  assume "IniInsertKey h Section' AnchorKey' InsertionType' Name' Data' = Inr (None, h2)"
  then show "unchanged_store h h2"
    by (auto simp: unchanged_store_def IniInsertKey_def split: option.splits if_splits
        dest: IniCacheAddKeyAorW_failure)
next
  assume "IniAddKey h Section' Name' Data' = Inr (None, h3)"
  then show "unchanged_store h h3"
    by (auto simp: unchanged_store_def IniAddKey_def IniInsertKey_def split: option.splits if_splits
        dest: IniCacheAddKeyAorW_failure)
next
  assume a: "case (Name', Data') of (Some N, Some D) \<Rightarrow> c_str N = [] \<or> c_str D = [] | _ \<Rightarrow> True"
  then show "IniInsertKey h Section' AnchorKey' InsertionType' Name' Data' = Inr (None, h)"
    by (auto simp: IniInsertKey_def split: option.splits)
  from a show "IniAddKey h Section' Name' Data' = Inr (None, h)"
    by (auto simp: IniAddKey_def IniInsertKey_def split: option.splits)
qed

theorem failed_mutation_changes_nothing_witness:
  "IniCacheAddKeyAorW (example_heap\<lparr>Allocs := [True, False]\<rparr>) (Some 0) None INSERT_LAST
        (Some ''X'') 1 (Some ''9'') 1 True = Inr (None, example_heap)
   \<and> unchanged_store (example_heap\<lparr>Allocs := [True, False]\<rparr>) example_heap
   \<and> c_str [] = []
   \<and> IniInsertKey (example_heap\<lparr>Allocs := [True, False]\<rparr>) (Some 0) None INSERT_FIRST
        (Some ''n'') (Some []) = Inr (None, example_heap\<lparr>Allocs := [True, False]\<rparr>)
   \<and> IniAddKey (example_heap\<lparr>Allocs := [True, False]\<rparr>) (Some 0)
        (Some ''n'') (Some []) = Inr (None, example_heap\<lparr>Allocs := [True, False]\<rparr>)
   \<and> unchanged_store (example_heap\<lparr>Allocs := [True, False]\<rparr>) (example_heap\<lparr>Allocs := [True, False]\<rparr>)"
proof -
  have a: "IniCacheAddKeyAorW (example_heap\<lparr>Allocs := [True, False]\<rparr>) (Some 0) None INSERT_LAST
        (Some ''X'') 1 (Some ''9'') 1 True = Inr (None, example_heap)"
    by code_simp
  have b: "c_str [] = []" by (simp add: c_str_def)
  from failed_mutation_changes_nothing [where h = "example_heap\<lparr>Allocs := [True, False]\<rparr>"
      and Section = "Some 0" and AnchorKey = None and InsertionType = INSERT_LAST
      and Name = "Some ''X''" and NameLength = 1 and Data = "Some ''9''" and DataLength = 1
      and IsUnicode = True and ?h1.0 = example_heap
      and Section' = "Some 0" and AnchorKey' = None and InsertionType' = INSERT_FIRST
      and Name' = "Some ''n''" and Data' = "Some []"
      and ?h2.0 = "example_heap\<lparr>Allocs := [True, False]\<rparr>"
      and ?h3.0 = "example_heap\<lparr>Allocs := [True, False]\<rparr>"]
  show ?thesis using a b by simp
qed

subsection \<open>Looking up a key\<close>

text \<open>
  Claim C10. \<^verbatim>\<open>IniGetKey\<close> returns \<^verbatim>\<open>STATUS_SUCCESS\<close> and the data of the key exactly
  when the section has a key whose name matches, ignoring case (the first one, if
  several); with a null section, a null key name, a null output pointer or no matching
  key it returns \<^verbatim>\<open>STATUS_INVALID_PARAMETER\<close>, the same status in all four cases.
\<close>

theorem IniGetKey_status:
  "STATUS_SUCCESS \<noteq> STATUS_INVALID_PARAMETER
   \<and> (section_keys h s = Inr ks \<longrightarrow>
        IniGetKey h (Some s) (Some KeyName) (Some Old) =
          Inr (case matching_key h ks KeyName of
                 Some k \<Rightarrow> (STATUS_SUCCESS, Some (Some (Key_Data (Keys h ! k))))
               | None \<Rightarrow> (STATUS_INVALID_PARAMETER, Some None)))
   \<and> IniGetKey h None Name KeyData = Inr (STATUS_INVALID_PARAMETER, KeyData)
   \<and> IniGetKey h Section None KeyData = Inr (STATUS_INVALID_PARAMETER, KeyData)
   \<and> IniGetKey h Section Name None = Inr (STATUS_INVALID_PARAMETER, None)"
proof (intro conjI impI)
  show "STATUS_SUCCESS \<noteq> STATUS_INVALID_PARAMETER"
    by (simp add: STATUS_SUCCESS_def STATUS_INVALID_PARAMETER_def)
next
  assume sk: "section_keys h s = Inr ks"
  show "IniGetKey h (Some s) (Some KeyName) (Some Old) =
          Inr (case matching_key h ks KeyName of
                 Some k \<Rightarrow> (STATUS_SUCCESS, Some (Some (Key_Data (Keys h ! k))))
               | None \<Rightarrow> (STATUS_INVALID_PARAMETER, Some None))"
  proof (cases "matching_key h ks KeyName")
    case None
    with sk show ?thesis by (simp add: IniGetKey_def IniCacheFindKey_section_keys)
  next
    case (Some k)
    then have "k \<in> set ks" by (simp add: matching_key_Some)
    with sk have "k < length (Keys h)"
      by (auto simp: section_keys_def bindF_Inr_iff dest: key_chain_valid)
    with sk Some show ?thesis
      by (simp add: IniGetKey_def IniCacheFindKey_section_keys get_key_def)
  qed
next
  show "IniGetKey h None Name KeyData = Inr (STATUS_INVALID_PARAMETER, KeyData)"
    by (simp add: IniGetKey_def split: option.splits)
  show "IniGetKey h Section None KeyData = Inr (STATUS_INVALID_PARAMETER, KeyData)"
    by (simp add: IniGetKey_def split: option.splits)
  show "IniGetKey h Section Name None = Inr (STATUS_INVALID_PARAMETER, None)"
    by (simp add: IniGetKey_def split: option.splits)
qed

theorem IniGetKey_status_witness:
  "section_keys example_heap 1 = Inr [1, 2]
   \<and> IniGetKey example_heap (Some 1) (Some ''Z'') (Some None) = Inr (STATUS_SUCCESS, Some (Some ''3''))
   \<and> IniGetKey example_heap (Some 1) (Some ''x'') (Some None) = Inr (STATUS_INVALID_PARAMETER, Some None)"
proof -
  have a: "section_keys example_heap 1 = Inr [1, 2]" by code_simp
  have b: "matching_key example_heap [1, 2] ''Z'' = Some 2" by code_simp
  have c: "matching_key example_heap [1, 2] ''x'' = None" by code_simp
  have d: "Key_Data (Keys example_heap ! 2) = ''3''" by code_simp
  from IniGetKey_status [of example_heap 1 "[1, 2]" "''Z''" None]
    IniGetKey_status [of example_heap 1 "[1, 2]" "''x''" None]
  show ?thesis using a b c d by simp
qed

subsection \<open>Adding a key whose name exists\<close>

text \<open>
  Claim C4. When the section already has a key whose name matches the new name, ignoring
  case, adding the name with a new non-empty value (through \<^verbatim>\<open>IniCacheAddKeyAorW\<close>,
  \<^verbatim>\<open>IniInsertKey\<close> or \<^verbatim>\<open>IniAddKey\<close>, the two allocations of the call succeeding) returns
  that key and replaces its value in place: the key sequence of every section is the
  same list of keys as before (same count, same positions), no other field of any key,
  section or cache changes, and the anchor and the insertion mode have no effect.
\<close>

theorem existing_key_is_updated_in_place:
  assumes "section_keys h s = Inr ks"
    and "matching_key h ks (wcsncpy Name NameLength) = Some k"
    and "0 < NameLength" and "0 < DataLength"
    and "allocs_succeed 2 h"
  shows "\<exists>h'. IniCacheAddKeyAorW h (Some s) AnchorKey InsertionType (Some Name) NameLength
                 (Some Data) DataLength IsUnicode = Inr (Some k, h')
            \<and> (NameLength = wcslen Name \<and> DataLength = wcslen Data \<longrightarrow>
                 IniInsertKey h (Some s) AnchorKey InsertionType (Some Name) (Some Data) = Inr (Some k, h')
                 \<and> IniAddKey h (Some s) (Some Name) (Some Data) = Inr (Some k, h'))
            \<and> (\<forall>AnchorKey' InsertionType'.
                 IniCacheAddKeyAorW h (Some s) AnchorKey' InsertionType' (Some Name) NameLength
                   (Some Data) DataLength IsUnicode = Inr (Some k, h'))
            \<and> (\<forall>s'. section_keys h' s' = section_keys h s')
            \<and> Keys h' = (Keys h)[k := (Keys h ! k)\<lparr>Key_Data := wcsncpy Data DataLength\<rparr>]
            \<and> Sections h' = Sections h \<and> Caches h' = Caches h"
proof -
  let ?h' = "with_key_data (after_allocs 2 h) k (wcsncpy Data DataLength)"
  note ex = IniCacheAddKeyAorW_existing [OF assms]
  have 1: "IniCacheAddKeyAorW h (Some s) A T (Some Name) NameLength (Some Data) DataLength IsUnicode
           = Inr (Some k, ?h')" for A T
    by (rule IniCacheAddKeyAorW_existing [OF assms])
  have 2: "IniInsertKey h (Some s) AnchorKey InsertionType (Some Name) (Some Data) = Inr (Some k, ?h')
           \<and> IniAddKey h (Some s) (Some Name) (Some Data) = Inr (Some k, ?h')"
    if "NameLength = wcslen Name \<and> DataLength = wcslen Data"
  proof -
    from that assms(3,4) have ne: "c_str Name \<noteq> []" "c_str Data \<noteq> []"
      by (auto simp: wcslen_def)
    have 3: "IniCacheAddKeyAorW h (Some s) A T (Some Name) (wcslen Name) (Some Data) (wcslen Data) True
           = Inr (Some k, ?h')" for A T
      using IniCacheAddKeyAorW_existing [OF assms, where AnchorKey = A and InsertionType = T and IsUnicode = True] that by simp
    from ne 3 show ?thesis by (simp add: IniInsertKey_def IniAddKey_def)
  qed
  have 4: "section_keys ?h' s' = section_keys h s'" for s'
    by (simp add: section_keys_with_key_data)
  have 5: "Keys ?h' = (Keys h)[k := (Keys h ! k)\<lparr>Key_Data := wcsncpy Data DataLength\<rparr>]"
    "Sections ?h' = Sections h" "Caches ?h' = Caches h"
    by (simp_all add: with_key_data_def)
  from 1 2 4 5 show ?thesis by blast
qed

theorem existing_key_is_updated_in_place_witness:
  "section_keys example_heap 1 = Inr [1, 2]
   \<and> matching_key example_heap [1, 2] (wcsncpy ''Z'' 1) = Some 2
   \<and> allocs_succeed 2 example_heap
   \<and> (\<exists>h'. IniCacheAddKeyAorW example_heap (Some 1) (Some 1) INSERT_BEFORE (Some ''Z'') 1
                 (Some ''30'') 2 True = Inr (Some 2, h')
         \<and> IniAddKey example_heap (Some 1) (Some ''Z'') (Some ''30'') = Inr (Some 2, h')
         \<and> section_keys h' 1 = Inr [1, 2]
         \<and> Keys h' = (Keys example_heap)[2 := (Keys example_heap ! 2)\<lparr>Key_Data := ''30''\<rparr>])"
proof -
  have a: "section_keys example_heap 1 = Inr [1, 2]" by code_simp
  have b: "matching_key example_heap [1, 2] (wcsncpy ''Z'' 1) = Some 2" by code_simp
  have c: "allocs_succeed 2 example_heap" by code_simp
  have d: "(1::nat) = wcslen ''Z'' \<and> (2::nat) = wcslen ''30''" by code_simp
  have e: "wcsncpy ''30'' 2 = ''30''" by code_simp
  from existing_key_is_updated_in_place [OF a b _ _ c, where DataLength = 2 and AnchorKey = "Some 1"
      and InsertionType = INSERT_BEFORE and Data = "''30''" and IsUnicode = True]
  show ?thesis using a b c d e by auto
qed

subsection \<open>Insertion relative to an anchor\<close>




subsection \<open>Adding and finding sections\<close>

text \<open>
  Claim C5. In a well-formed cache, \<^verbatim>\<open>IniCacheAddSectionAorW\<close> with a name of non-zero
  length (its allocations succeeding) returns the first section whose name matches,
  ignoring case, and creates nothing; when no section matches it appends a new section,
  with no keys, at the end of the cache's sequence. Hence after \<^verbatim>\<open>IniAddSection\<close> has
  returned a section for a name, \<^verbatim>\<open>IniGetSection\<close> returns that section for every name that
  differs from it only in case.
\<close>

theorem add_section_finds_or_appends:
  assumes "cache_ok h c L" and "0 < NameLength" and "allocs_succeed 2 h"
  shows "(case matching_section h (map fst L) (wcsncpy Name NameLength) of
            Some s \<Rightarrow>
              IniCacheAddSectionAorW h (Some c) (Some Name) NameLength IsUnicode
                = Inr (Some s, after_allocs 1 h)
              \<and> cache_entries (after_allocs 1 h) (Some c) = cache_entries h (Some c)
          | None \<Rightarrow>
              (\<exists>h'. IniCacheAddSectionAorW h (Some c) (Some Name) NameLength IsUnicode
                       = Inr (Some (length (Sections h)), h')
                   \<and> cache_ok h' c (L @ [(length (Sections h), [])])
                   \<and> cache_entries h' (Some c)
                       = Inr (entries_of h L @ [(wcsncpy Name NameLength, [])])))
       \<and> (IniAddSection h (Some c) (Some Name) = Inr (Some s', h'') \<and> wcsicmp Name Name' = 0
            \<longrightarrow> IniGetSection h'' (Some c) (Some Name') = Inr (Some s'))"
proof (intro conjI impI)
  let ?N = "wcsncpy Name NameLength"
  show "case matching_section h (map fst L) ?N of
            Some s \<Rightarrow>
              IniCacheAddSectionAorW h (Some c) (Some Name) NameLength IsUnicode
                = Inr (Some s, after_allocs 1 h)
              \<and> cache_entries (after_allocs 1 h) (Some c) = cache_entries h (Some c)
          | None \<Rightarrow>
              (\<exists>h'. IniCacheAddSectionAorW h (Some c) (Some Name) NameLength IsUnicode
                       = Inr (Some (length (Sections h)), h')
                   \<and> cache_ok h' c (L @ [(length (Sections h), [])])
                   \<and> cache_entries h' (Some c)
                       = Inr (entries_of h L @ [(wcsncpy Name NameLength, [])]))"
  proof (cases "matching_section h (map fst L) ?N")
    case None
    from IniCacheAddSectionAorW_new [OF assms(1) None assms(2,3), where IsUnicode = IsUnicode]
    obtain h' where "IniCacheAddSectionAorW h (Some c) (Some Name) NameLength IsUnicode
                = Inr (Some (length (Sections h)), h')"
      and ok': "cache_ok h' c (L @ [(length (Sections h), [])])"
      and "entries_of h' (L @ [(length (Sections h), [])]) = entries_of h L @ [(c_str ?N, [])]"
      by blast
    with cache_ok_entries [OF ok'] None show ?thesis by auto
  next
    case (Some s)
    from assms(3) have "allocs_succeed 1 h" by (rule allocs_succeed_mono) simp
    from IniCacheAddSectionAorW_existing [OF assms(1) Some assms(2) this, where IsUnicode = IsUnicode]
      cache_ok_entries [of h c L] cache_ok_entries [of "after_allocs 1 h" c L] assms(1) Some
    show ?thesis by simp
  qed
next
  assume a: "IniAddSection h (Some c) (Some Name) = Inr (Some s', h'') \<and> wcsicmp Name Name' = 0"
  then have ne: "c_str Name \<noteq> []"
    and r: "IniCacheAddSectionAorW h (Some c) (Some Name) (wcslen Name) True = Inr (Some s', h'')"
    and eq: "wcsicmp Name Name' = 0"
    by (auto simp: IniAddSection_def split: if_splits)
  from ne have len: "0 < wcslen Name" by (simp add: wcslen_def)
  have same: "wcsicmp x Name = wcsicmp x Name'" for x
    using wcsicmp_trans [OF eq, of x] by (simp add: wcsicmp_sym [of x])
  show "IniGetSection h'' (Some c) (Some Name') = Inr (Some s')"
  proof (cases "matching_section h (map fst L) (c_str Name)")
    case (Some s)
    from assms(3) have "allocs_succeed 1 h" by (rule allocs_succeed_mono) simp
    from Some have "matching_section h (map fst L) (wcsncpy Name (wcslen Name)) = Some s"
      by (simp add: wcsncpy_wcslen)
    from IniCacheAddSectionAorW_existing [OF assms(1) this len \<open>allocs_succeed 1 h\<close>, where IsUnicode = True] r
    have "s' = s" "h'' = after_allocs 1 h" by simp_all
    moreover from Some have "matching_section h (map fst L) Name' = Some s"
      by (simp add: matching_section_def same)
    ultimately show ?thesis
      using assms(1) by (simp add: IniGetSection_def IniCacheFindSection_ok)
  next
    case None
    let ?S = "length (Sections h)"
    from None have "matching_section h (map fst L) (wcsncpy Name (wcslen Name)) = None"
      by (simp add: wcsncpy_wcslen)
    from IniCacheAddSectionAorW_new [OF assms(1) this len assms(3), where IsUnicode = True] r
    have s': "s' = ?S" and ok': "cache_ok h'' c (L @ [(?S, [])])"
      and e: "entries_of h'' (L @ [(?S, [])]) = entries_of h L @ [(c_str Name, [])]"
      by (auto simp: wcsncpy_wcslen)
    from None have "first_index (\<lambda>e. wcsicmp (fst e) Name' = 0) (entries_of h L) = None"
      by (simp add: matching_section_entries same)
    then have "first_index (\<lambda>e. wcsicmp (fst e) Name' = 0) (entries_of h L @ [(c_str Name, [])])
        = Some (length L)"
      using eq by (simp add: first_index_append entries_of_def)
    with e have "matching_section h'' (map fst (L @ [(?S, [])])) Name' = Some ?S"
      unfolding matching_section_entries by (simp add: nth_append)
    with ok' s' show ?thesis
      using IniCacheFindSection_ok [OF ok', of Name'] by (simp add: IniGetSection_def)
  qed
qed


theorem add_section_finds_or_appends_witness:
  "cache_ok example_heap 0 [(0, [0]), (1, [1, 2])] \<and> allocs_succeed 2 example_heap
   \<and> matching_section example_heap (map fst [(0 :: addr, [0 :: addr]), (1, [1, 2])]) (wcsncpy ''b'' 1)
       = Some 1
   \<and> IniCacheAddSectionAorW example_heap (Some 0) (Some ''b'') 1 True
       = Inr (Some 1, after_allocs 1 example_heap)
   \<and> IniAddSection example_heap (Some 0) (Some ''Foo'')
       = Inr (Some 2, snd (projr (IniAddSection example_heap (Some 0) (Some ''Foo''))))
   \<and> wcsicmp ''Foo'' ''FOO'' = 0
   \<and> IniGetSection (snd (projr (IniAddSection example_heap (Some 0) (Some ''Foo''))))
        (Some 0) (Some ''FOO'') = Inr (Some 2)"
proof -
  let ?L = "[(0, [0]), (1, [1, 2])] :: (addr \<times> addr list) list"
  let ?r = "IniAddSection example_heap (Some 0) (Some ''Foo'')"
  have ok: "cache_ok example_heap 0 ?L" by code_simp
  have al: "allocs_succeed 2 example_heap" by code_simp
  have m: "matching_section example_heap (map fst ?L) (wcsncpy ''b'' 1) = Some 1" by code_simp
  have n: "\<not> isl ?r" "fst (projr ?r) = Some 2" by code_simp+
  then have r: "?r = Inr (Some 2, snd (projr ?r))" by (cases ?r) auto
  have w: "wcsicmp ''Foo'' ''FOO'' = 0" by code_simp
  from add_section_finds_or_appends [OF ok _ al, where NameLength = 1 and Name = "''b''"
      and IsUnicode = True and s' = 2 and h'' = "snd (projr ?r)" and Name' = "''FOO''"] m
  have 1: "IniCacheAddSectionAorW example_heap (Some 0) (Some ''b'') 1 True
       = Inr (Some 1, after_allocs 1 example_heap)" by simp
  from add_section_finds_or_appends [OF ok _ al, where NameLength = 1 and Name = "''Foo''"
      and IsUnicode = True and s' = 2 and h'' = "snd (projr ?r)" and Name' = "''FOO''"] r w
  have 2: "IniGetSection (snd (projr ?r)) (Some 0) (Some ''FOO'') = Inr (Some 2)" by simp
  from ok al m 1 r w 2 show ?thesis by blast
qed

subsection \<open>Serializing\<close>

text \<open>
  Claim C6. For a well-formed cache (the allocation of the buffer succeeding)
  \<^verbatim>\<open>IniCacheSaveByHandle\<close> hands to \<^verbatim>\<open>NtWriteFile\<close> exactly the rendering of the cache's
  sequence of sections and keys: for each section in order \<^verbatim>\<open>[Name]\<close> CR LF, then each of
  its keys in order as \<^verbatim>\<open>Name=Value\<close> CR LF, one CR LF between consecutive sections and
  none after the last, nothing quoted or escaped. The text is a function of the
  sequence alone; the status returned is that of the write.
\<close>

theorem save_renders_entries:
  assumes "cache_ok h c L" and "allocs_succeed 1 h"
  shows "cache_entries h (Some c) = Inr (entries_of h L)
       \<and> IniCacheSaveByHandle h (Some c) NtWriteFile
           = Inr (if NT_SUCCESS (NtWriteFile (render_entries (entries_of h L)))
                  then STATUS_SUCCESS else NtWriteFile (render_entries (entries_of h L)),
                  Some (render_entries (entries_of h L)), after_allocs 1 h)"
proof
  from assms(1) show "cache_entries h (Some c) = Inr (entries_of h L)" by (rule cache_ok_entries)
next
  let ?text = "render_entries (entries_of h L)"
  let ?h1 = "after_allocs 1 h"
  from assms(2) have a1: "RtlAllocateHeap h = (True, ?h1)"
    using RtlAllocateHeap_succeeds [of 0 h] by simp
  from assms(1) have c: "c < length (Caches h)"
    and sp: "path (\<lambda>a. Section_Next (Sections h ! a)) (length (Sections h))
               (FirstSection (Caches h ! c)) (map fst L)"
    and secs: "list_all (section_ok h) L"
    by (simp_all add: cache_ok_def section_path_def)
  from sp have len: "length L \<le> Suc (length (Sections h))"
    using path_length [OF sp] by simp
  have size: "BufferSize_sections (Suc (length (Sections h))) h (FirstSection (Caches h ! c)) 0
      = Inr (length ?text)"
    using BufferSize_sections_path [OF sp secs len, of 0] by simp
  have sp1: "path (\<lambda>a. Section_Next (Sections ?h1 ! a)) (length (Sections ?h1))
               (FirstSection (Caches h ! c)) (map fst L)"
    using sp by simp
  have secs1: "list_all (section_ok ?h1) L"
    using secs by (simp add: section_ok_def key_path_def list_all_iff)
  have fill: "fill_sections (Suc (length (Sections ?h1))) ?h1 (FirstSection (Caches h ! c)) []
      = Inr ?text"
    using fill_sections_path [OF sp1 secs1, of "Suc (length (Sections ?h1))" "[]"] len by simp
  show "IniCacheSaveByHandle h (Some c) NtWriteFile
           = Inr (if NT_SUCCESS (NtWriteFile ?text) then STATUS_SUCCESS else NtWriteFile ?text,
                  Some ?text, ?h1)"
    using c size a1 fill
    by (simp add: IniCacheSaveByHandle_def get_cache_def Let_def)
qed

theorem save_renders_entries_witness:
  "cache_ok example_heap 0 [(0, [0]), (1, [1, 2])] \<and> allocs_succeed 1 example_heap
   \<and> cache_entries example_heap (Some 0)
       = Inr [(''A'', [(''x'', ''1'')]), (''B'', [(''y'', ''2''), (''z'', ''3'')])]
   \<and> IniCacheSaveByHandle example_heap (Some 0) (\<lambda>_. STATUS_SUCCESS)
       = Inr (STATUS_SUCCESS,
              Some (''[A]'' @ CRLF @ ''x=1'' @ CRLF @ CRLF @ ''[B]'' @ CRLF @ ''y=2'' @ CRLF @ ''z=3'' @ CRLF),
              example_heap)"
proof -
  let ?L = "[(0, [0]), (1, [1, 2])] :: (addr \<times> addr list) list"
  have ok: "cache_ok example_heap 0 ?L" by code_simp
  have al: "allocs_succeed 1 example_heap" by code_simp
  have e: "entries_of example_heap ?L
       = [(''A'', [(''x'', ''1'')]), (''B'', [(''y'', ''2''), (''z'', ''3'')])]" by code_simp
  have r: "render_entries [(''A'', [(''x'', ''1'')]), (''B'', [(''y'', ''2''), (''z'', ''3'')])]
       = ''[A]'' @ CRLF @ ''x=1'' @ CRLF @ CRLF @ ''[B]'' @ CRLF @ ''y=2'' @ CRLF @ ''z=3'' @ CRLF"
    by code_simp
  have a: "after_allocs 1 example_heap = example_heap" by code_simp
  have s: "NT_SUCCESS STATUS_SUCCESS" by code_simp
  from save_renders_entries [OF ok al, of "\<lambda>_. STATUS_SUCCESS"]
  show ?thesis using ok al e r a s by simp
qed

subsection \<open>Loading, saving and loading again\<close>

text \<open>
  Claim C1, as stated: loading a well-formed buffer, saving the cache and loading the
  text that was written gives the sections, keys and values of the first load. The
  writer never quotes a value, so a value that was read between quotes is read back by
  the rules for unquoted values. Below, in quoted mode, the value \<^verbatim>\<open>a;b\<close> of the first
  load is written as \<^verbatim>\<open>x=a;b\<close> and comes back as \<^verbatim>\<open>a\<close>.
\<close>

theorem quoted_value_is_not_read_back:
  "bindF (IniCacheLoadFromMemory empty_heap
            (''[A]'' @ CRLF @ ''x='' @ [CHR 0x22] @ ''a;b'' @ [CHR 0x22] @ CRLF @ [NUL]) 14 True)
     (\<lambda>(Status, Cache, h1).
   bindF (cache_entries h1 Cache) (\<lambda>es1.
   bindF (IniCacheSaveByHandle h1 Cache (\<lambda>_. STATUS_SUCCESS)) (\<lambda>(Status, Written, h2).
   case Written of
     None \<Rightarrow> Inr (es1, None, [])
   | Some Text \<Rightarrow>
       bindF (IniCacheLoadFromMemory h2 (Text @ [NUL]) (length Text) True) (\<lambda>(Status, Cache', h3).
       bindF (cache_entries h3 Cache') (\<lambda>es3. Inr (es1, Some Text, es3))))))
   = Inr ([(''A'', [(''x'', ''a;b'')])],
          Some (''[A]'' @ CRLF @ ''x=a;b'' @ CRLF),
          [(''A'', [(''x'', ''a'')])])"
  by code_simp

text \<open>
  Claim C1, amended. Let a load return (no allocation failing) a cache with the entries
  \<open>es\<close>, and let these be plain: no key name begins with \<^verbatim>\<open>[\<close> and, when the buffer was
  loaded in quoted mode, every value is non-empty, begins neither with white space nor
  with a quote and holds no CR and no \<^verbatim>\<open>;\<close> (in unquoted mode every loaded value is so).
  Then \<^verbatim>\<open>IniCacheSaveByHandle\<close> writes the rendering of \<open>es\<close>, and loading that text, with
  the terminator \<^verbatim>\<open>IniCacheLoadByHandle\<close> appends, in the same mode returns a cache with
  the entries \<open>es\<close>.
\<close>

theorem load_save_load:
  assumes "Allocs h = []"
    and "IniCacheLoadFromMemory h FileBuffer FileLength String = Inr (Status, Cache, h1)"
    and "cache_entries h1 Cache = Inr es"
    and "plain_entries String es"
  shows "IniCacheSaveByHandle h1 Cache NtWriteFile
           = Inr (if NT_SUCCESS (NtWriteFile (render_entries es))
                  then STATUS_SUCCESS else NtWriteFile (render_entries es),
                  Some (render_entries es), h1)
       \<and> bindF (IniCacheLoadFromMemory h1 (render_entries es @ [NUL]) (length (render_entries es))
                 String)
           (\<lambda>(Status', Cache', h'). cache_entries h' Cache') = Inr es"
proof -
  from IniCacheLoadFromMemory_entries [OF assms(1), where FileBuffer = FileBuffer
      and String = String and FileLength = FileLength] assms(2)
  obtain L where first: "load_entries [] None (Some FileBuffer) String = Inr (entries_of h1 L)"
    and Cache: "Cache = Some (length (Caches h))"
    and ok: "cache_ok h1 (length (Caches h)) L" and al: "Allocs h1 = []"
    by (cases "load_entries [] None (Some FileBuffer) String") auto
  from cache_ok_entries [OF ok] assms(3) Cache have es: "es = entries_of h1 L" by simp
  have "loaded_ok String []" by (simp add: loaded_ok_def)
  with first have "loaded_ok String es" unfolding es by (rule load_entries_loaded_ok)
  then have re: "reloadable String es" using assms(4) by (rule loaded_ok_reloadable)
  have save: "IniCacheSaveByHandle h1 Cache NtWriteFile
           = Inr (if NT_SUCCESS (NtWriteFile (render_entries es))
                  then STATUS_SUCCESS else NtWriteFile (render_entries es),
                  Some (render_entries es), h1)"
    unfolding es Cache using ok al by (rule IniCacheSaveByHandle_text)
  from IniCacheLoadFromMemory_entries [OF al, where FileBuffer = "render_entries es @ [NUL]"
      and String = String and FileLength = "length (render_entries es)"] load_entries_render_all [OF re, of None]
  obtain h3 L3 where "IniCacheLoadFromMemory h1 (render_entries es @ [NUL])
        (length (render_entries es)) String = Inr (STATUS_SUCCESS, Some (length (Caches h1)), h3)"
    and "cache_ok h3 (length (Caches h1)) L3" and "entries_of h3 L3 = es"
    by auto
  with cache_ok_entries [of h3 "length (Caches h1)" L3]
  have "bindF (IniCacheLoadFromMemory h1 (render_entries es @ [NUL]) (length (render_entries es))
                 String)
           (\<lambda>(Status', Cache', h'). cache_entries h' Cache') = Inr es"
    by simp
  with save show ?thesis by simp
qed

theorem load_save_load_witness:
  "Allocs empty_heap = []
   \<and> IniCacheLoadFromMemory empty_heap example_buffer 38 True
       = Inr (STATUS_SUCCESS, Some 0,
              snd (snd (projr (IniCacheLoadFromMemory empty_heap example_buffer 38 True))))
   \<and> cache_entries
         (snd (snd (projr (IniCacheLoadFromMemory empty_heap example_buffer 38 True)))) (Some 0)
       = Inr [(''A'', [(''x'', ''1 2''), (''z'', ''3'')]), (''B'', [(''y'', ''2'')])]
   \<and> plain_entries True [(''A'', [(''x'', ''1 2''), (''z'', ''3'')]), (''B'', [(''y'', ''2'')])]
   \<and> IniCacheSaveByHandle
         (snd (snd (projr (IniCacheLoadFromMemory empty_heap example_buffer 38 True)))) (Some 0)
         (\<lambda>_. STATUS_SUCCESS)
       = Inr (STATUS_SUCCESS,
              Some (''[A]'' @ CRLF @ ''x=1 2'' @ CRLF @ ''z=3'' @ CRLF @ CRLF @ ''[B]'' @ CRLF
                    @ ''y=2'' @ CRLF),
              snd (snd (projr (IniCacheLoadFromMemory empty_heap example_buffer 38 True))))
   \<and> bindF (IniCacheLoadFromMemory
               (snd (snd (projr (IniCacheLoadFromMemory empty_heap example_buffer 38 True))))
               (''[A]'' @ CRLF @ ''x=1 2'' @ CRLF @ ''z=3'' @ CRLF @ CRLF @ ''[B]'' @ CRLF
                @ ''y=2'' @ CRLF @ [NUL]) 29 True)
       (\<lambda>(Status', Cache', h'). cache_entries h' Cache')
       = Inr [(''A'', [(''x'', ''1 2''), (''z'', ''3'')]), (''B'', [(''y'', ''2'')])]"
proof -
  let ?r = "IniCacheLoadFromMemory empty_heap example_buffer 38 True"
  let ?H = "snd (snd (projr ?r))"
  let ?es = "[(''A'', [(''x'', ''1 2''), (''z'', ''3'')]), (''B'', [(''y'', ''2'')])]"
  let ?text = "''[A]'' @ CRLF @ ''x=1 2'' @ CRLF @ ''z=3'' @ CRLF @ CRLF @ ''[B]'' @ CRLF
                    @ ''y=2'' @ CRLF"
  have a: "Allocs empty_heap = []" by (simp add: empty_heap_def)
  have n: "\<not> isl ?r" "fst (projr ?r) = STATUS_SUCCESS" "fst (snd (projr ?r)) = Some 0"
    by code_simp+
  then have r: "?r = Inr (STATUS_SUCCESS, Some 0, ?H)" by (cases ?r) (auto simp: prod_eq_iff)
  have e: "cache_entries ?H (Some 0) = Inr ?es" by code_simp
  have p: "plain_entries True ?es" by code_simp
  have t: "render_entries ?es = ?text" by code_simp
  have l: "length ?text = 29" by code_simp
  have s: "NT_SUCCESS STATUS_SUCCESS" by (rule NT_SUCCESS_STATUS_SUCCESS)
  from load_save_load [OF a r e p, of "\<lambda>_. STATUS_SUCCESS"]
  have "IniCacheSaveByHandle ?H (Some 0) (\<lambda>_. STATUS_SUCCESS)
          = Inr (STATUS_SUCCESS, Some ?text, ?H)
      \<and> bindF (IniCacheLoadFromMemory ?H (?text @ [NUL]) 29 True)
          (\<lambda>(Status', Cache', h'). cache_entries h' Cache') = Inr ?es"
    unfolding t l using s by simp
  with a r e p show ?thesis by simp
qed

end
